theory Spec2Isabelle
  imports Main
begin

section \<open>tinyargs: the option registry and its parser\<close>

text \<open>
  A shallow embedding of \<^verbatim>\<open>src/tinyargs.c\<close> and \<^verbatim>\<open>include/tinyargs.h\<close>.

  \<^item> A \<^verbatim>\<open>const char *\<close> that may be \<^verbatim>\<open>NULL\<close> is a \<open>string option\<close>; \<^verbatim>\<open>strcmp(a, b) == 0\<close>
    is equality of the two strings.
  \<^item> The array \<^verbatim>\<open>parser->args\<close> together with \<^verbatim>\<open>parser->count\<close> is one list: \<open>count\<close> is
    its length. Allocation failure of \<^verbatim>\<open>malloc\<close>/\<^verbatim>\<open>realloc\<close> is not modelled.
  \<^item> \<^verbatim>\<open>argv\<close> with \<^verbatim>\<open>argc\<close> is a list of strings, \<^verbatim>\<open>argc\<close> its length; index 0 is the
    program name.
  \<^item> Loop counters are natural numbers: every counter of the source stays between 0 and
    \<^verbatim>\<open>argc\<close> or \<^verbatim>\<open>count\<close>, so no \<^verbatim>\<open>int\<close> arithmetic of the source can wrap.
  \<^item> The diagnostics that \<^verbatim>\<open>arg_parser_parse\<close> prints before it returns 0 are the values
    of the type \<open>parse_error\<close>; the parser state is passed in and returned, also on
    failure, because the source mutates it in place.
\<close>

subsection \<open>Data model\<close>

datatype arg_type_t = ARG_TYPE_FLAG | ARG_TYPE_VALUE

text \<open>
  The fields \<^verbatim>\<open>type\<close>, \<^verbatim>\<open>set\<close> and \<^verbatim>\<open>value\<close> of \<^verbatim>\<open>arg_t\<close> carry the suffix \<open>_fld\<close>, since
  the plain names are taken in Isabelle.
\<close>

record arg_t =
  short_name :: "string option"
  long_name :: "string option"
  type_fld :: arg_type_t
  required :: bool
  set_fld :: bool
  value_fld :: "string option"
  description :: "string option"

record arg_parser_t =
  args :: "arg_t list"

abbreviation count :: "arg_parser_t \<Rightarrow> nat" where
  "count parser \<equiv> length (args parser)"

text \<open>
  What \<^verbatim>\<open>arg_parser_parse\<close> prints when it returns 0. The payload is the argument of
  \<^verbatim>\<open>%s\<close>: a token of \<^verbatim>\<open>argv\<close> for the first two, the \<^verbatim>\<open>long_name\<close> pointer of the entry
  for the third. That pointer is \<^verbatim>\<open>NULL\<close> for an entry registered without a long name; the
  source passes it to \<^verbatim>\<open>printf\<close> unguarded, and the model records it as \<open>None\<close>.
\<close>

datatype parse_error =
    MissingValue string
  | UnrecognizedArgument string
  | MissingRequiredArgument "string option"

subsection \<open>Creation and registration\<close>

definition arg_parser_create :: arg_parser_t where
  "arg_parser_create = \<lparr>args = []\<rparr>"

definition arg_parser_add ::
  "arg_parser_t \<Rightarrow> string option \<Rightarrow> string option \<Rightarrow> arg_type_t \<Rightarrow> bool \<Rightarrow> string option
     \<Rightarrow> arg_parser_t" where
  "arg_parser_add parser sn ln ty req descr =
     parser\<lparr>args := args parser @
       [\<lparr>short_name = sn, long_name = ln, type_fld = ty, required = req,
         set_fld = False, value_fld = None, description = descr\<rparr>]\<rparr>"

subsection \<open>Name comparison\<close>

text \<open>
  The guard that all four loops of the source repeat:
  \<^verbatim>\<open>(arg->short_name && strcmp(name, arg->short_name) == 0) ||
   (arg->long_name && strcmp(name, arg->long_name) == 0)\<close>.
\<close>

definition name_matches :: "arg_t \<Rightarrow> string \<Rightarrow> bool" where
  "name_matches arg name =
     ((case short_name arg of None \<Rightarrow> False | Some s \<Rightarrow> name = s) \<or>
      (case long_name arg of None \<Rightarrow> False | Some l \<Rightarrow> name = l))"

subsection \<open>Parsing\<close>

text \<open>
  How the inner loop over the entries (index \<open>j\<close>) ends for the token at index \<open>i\<close>:
  \<^item> \<open>Break as i'\<close>: an entry matched and the loop left through \<^verbatim>\<open>break\<close>, with the entries
    now \<open>as\<close> and the token index now \<open>i'\<close> (\<open>i\<close>, or \<open>i + 1\<close> after \<^verbatim>\<open>argv[++i]\<close>);
  \<^item> \<open>Return0 e as\<close>: the function printed \<open>e\<close> and returned 0 from inside the loop;
  \<^item> \<open>Exhausted\<close>: the loop ran to \<open>count\<close> and \<^verbatim>\<open>recognized\<close> is still false.
\<close>

datatype scan_t =
    Break "arg_t list" nat
  | Return0 parse_error "arg_t list"
  | Exhausted

function scan_args :: "arg_t list \<Rightarrow> string list \<Rightarrow> nat \<Rightarrow> nat \<Rightarrow> scan_t" where
  "scan_args as argv i j =
     (if j < length as then
        (let arg = as ! j in
         if name_matches arg (argv ! i) then
           (let as1 = as[j := arg\<lparr>set_fld := True\<rparr>] in
            if type_fld arg = ARG_TYPE_VALUE then
              (if i + 1 < length argv then
                 Break (as1[j := (as1 ! j)\<lparr>value_fld := Some (argv ! (i + 1))\<rparr>]) (i + 1)
               else if required arg then
                 Return0 (MissingValue (argv ! i)) as1
               else Break as1 i)
            else Break as1 i)
         else scan_args as argv i (j + 1))
      else Exhausted)"
  by pat_completeness auto
termination
  by (relation "measure (\<lambda>(as, argv, i, j). length as - j)") auto

declare scan_args.simps [simp del]

text \<open>
  The outer loop over the tokens, from index \<open>i\<close>. It returns the entries as they are when
  the loop is left, with \<open>Inl e\<close> when the function returned 0 from inside the loop and
  \<open>Inr ()\<close> when the loop ran to \<^verbatim>\<open>argc\<close>.
\<close>

function parse_loop ::
  "arg_t list \<Rightarrow> string list \<Rightarrow> nat \<Rightarrow> (parse_error + unit) \<times> arg_t list" where
  "parse_loop as argv i =
     (if i < length argv then
        (case scan_args as argv i 0 of
           Break as' i' \<Rightarrow> parse_loop as' argv (i' + 1)
         | Return0 e as' \<Rightarrow> (Inl e, as')
         | Exhausted \<Rightarrow> (Inl (UnrecognizedArgument (argv ! i)), as))
      else (Inr (), as))"
  by pat_completeness auto
termination
proof (relation "measure (\<lambda>(as, argv, i). length argv - i)")
  show "wf (measure (\<lambda>(as, argv, i). length argv - i))"
    by simp
next
  fix as :: "arg_t list" and argv :: "string list" and i :: nat
    and as' :: "arg_t list" and i' :: nat
  assume lt: "i < length argv" and br: "scan_args as argv i 0 = Break as' i'"
  have "scan_args bs argv i j = Break as' i' \<Longrightarrow> i \<le> i'" for bs j
    by (induction bs argv i j rule: scan_args.induct)
       (subst (asm) scan_args.simps, simp add: Let_def split: if_splits)
  with br have "i \<le> i'"
    by blast
  with lt show "((as', argv, i' + 1), (as, argv, i)) \<in> measure (\<lambda>(as, argv, i). length argv - i)"
    by simp
qed

declare parse_loop.simps [simp del]

text \<open>The second loop of \<^verbatim>\<open>arg_parser_parse\<close>: the scan for a required entry not set.\<close>

function check_required :: "arg_t list \<Rightarrow> nat \<Rightarrow> parse_error + unit" where
  "check_required as j =
     (if j < length as then
        (if required (as ! j) \<and> \<not> set_fld (as ! j) then
           Inl (MissingRequiredArgument (long_name (as ! j)))
         else check_required as (j + 1))
      else Inr ())"
  by pat_completeness auto
termination
  by (relation "measure (\<lambda>(as, j). length as - j)") auto

declare check_required.simps [simp del]

text \<open>
  \<^verbatim>\<open>arg_parser_parse\<close>: \<open>Inl e\<close> is "printed \<open>e\<close>, returned 0", \<open>Inr ()\<close> is "returned 1"; the
  second component is the parser after the call.
\<close>

definition arg_parser_parse ::
  "arg_parser_t \<Rightarrow> string list \<Rightarrow> (parse_error + unit) \<times> arg_parser_t" where
  "arg_parser_parse parser argv =
     (case parse_loop (args parser) argv 1 of
        (Inl e, as) \<Rightarrow> (Inl e, parser\<lparr>args := as\<rparr>)
      | (Inr u, as) \<Rightarrow> (check_required as 0, parser\<lparr>args := as\<rparr>))"

definition return_code :: "parse_error + unit \<Rightarrow> int" where
  "return_code r = (case r of Inl e \<Rightarrow> 0 | Inr u \<Rightarrow> 1)"

subsection \<open>Queries\<close>

function get_value_from :: "arg_parser_t \<Rightarrow> string \<Rightarrow> nat \<Rightarrow> string option" where
  "get_value_from parser name i =
     (if i < count parser then
        (if name_matches (args parser ! i) name then value_fld (args parser ! i)
         else get_value_from parser name (i + 1))
      else None)"
  by pat_completeness auto
termination
  by (relation "measure (\<lambda>(parser, name, i). count parser - i)") auto

declare get_value_from.simps [simp del]

definition arg_parser_get_value :: "arg_parser_t \<Rightarrow> string \<Rightarrow> string option" where
  "arg_parser_get_value parser name = get_value_from parser name 0"

function is_flag_set_from :: "arg_parser_t \<Rightarrow> string \<Rightarrow> nat \<Rightarrow> bool" where
  "is_flag_set_from parser name i =
     (if i < count parser then
        (if name_matches (args parser ! i) name then set_fld (args parser ! i)
         else is_flag_set_from parser name (i + 1))
      else False)"
  by pat_completeness auto
termination
  by (relation "measure (\<lambda>(parser, name, i). count parser - i)") auto

declare is_flag_set_from.simps [simp del]

definition arg_parser_is_flag_set :: "arg_parser_t \<Rightarrow> string \<Rightarrow> bool" where
  "arg_parser_is_flag_set parser name = is_flag_set_from parser name 0"

text \<open>
  In \<^verbatim>\<open>arg_parser_has\<close> a matching entry whose type is neither enumerator would fall through
  to the next entry; \<open>arg_type_t\<close> has exactly the two enumerators, so the two branches are
  all there is.
\<close>

function has_from :: "arg_parser_t \<Rightarrow> string \<Rightarrow> nat \<Rightarrow> bool" where
  "has_from parser name i =
     (if i < count parser then
        (if name_matches (args parser ! i) name then
           (case type_fld (args parser ! i) of
              ARG_TYPE_FLAG \<Rightarrow> set_fld (args parser ! i)
            | ARG_TYPE_VALUE \<Rightarrow> value_fld (args parser ! i) \<noteq> None)
         else has_from parser name (i + 1))
      else False)"
  by pat_completeness auto
termination
  by (relation "measure (\<lambda>(parser, name, i). count parser - i)") auto

declare has_from.simps [simp del]

definition arg_parser_has :: "arg_parser_t \<Rightarrow> string \<Rightarrow> bool" where
  "arg_parser_has parser name = has_from parser name 0"

subsection \<open>Notions used to state the properties\<close>

text \<open>
  The index of the first entry, in registration order, that a name matches: the entry at
  which each of the loops above stops.
\<close>

fun first_match :: "arg_t list \<Rightarrow> string \<Rightarrow> nat option" where
  "first_match [] name = None"
| "first_match (a # as) name =
     (if name_matches a name then Some 0 else map_option Suc (first_match as name))"

text \<open>
  The state of the outer loop of \<^verbatim>\<open>arg_parser_parse\<close> after \<open>n\<close> complete iterations that
  began with entries \<open>as\<close> at token index \<open>i\<close>: the entries and the index of the token the
  next iteration looks at. It is \<open>None\<close> when the function returned, or the loop ended,
  before that.
\<close>

fun loop_state :: "nat \<Rightarrow> arg_t list \<Rightarrow> string list \<Rightarrow> nat \<Rightarrow> (arg_t list \<times> nat) option" where
  "loop_state 0 as argv i = Some (as, i)"
| "loop_state (Suc n) as argv i =
     (if i < length argv then
        (case scan_args as argv i 0 of
           Break as' i' \<Rightarrow> loop_state n as' argv (i' + 1)
         | Return0 e as' \<Rightarrow> None
         | Exhausted \<Rightarrow> None)
      else None)"

text \<open>The invariant of the data model: a value is stored only in a set entry of type value.\<close>

definition entry_inv :: "arg_t \<Rightarrow> bool" where
  "entry_inv a = (value_fld a \<noteq> None \<longrightarrow> type_fld a = ARG_TYPE_VALUE \<and> set_fld a)"

definition value_inv :: "arg_parser_t \<Rightarrow> bool" where
  "value_inv parser = list_all entry_inv (args parser)"

text \<open>A call of the registering or the parsing function, and a sequence of them run on a new parser.\<close>

datatype api_call =
    Add "string option" "string option" arg_type_t bool "string option"
  | Parse "string list"

fun apply_call :: "arg_parser_t \<Rightarrow> api_call \<Rightarrow> arg_parser_t" where
  "apply_call parser (Add sn ln ty req descr) = arg_parser_add parser sn ln ty req descr"
| "apply_call parser (Parse argv) = snd (arg_parser_parse parser argv)"

definition run_calls :: "api_call list \<Rightarrow> arg_parser_t" where
  "run_calls calls = foldl apply_call arg_parser_create calls"

text \<open>
  A registry for examples: the flag \<^verbatim>\<open>-h\<close>/\<^verbatim>\<open>--help\<close>, not required, then the value option
  \<^verbatim>\<open>-n\<close>/\<^verbatim>\<open>--name\<close>, required.
\<close>

definition example_parser :: arg_parser_t where
  "example_parser =
     arg_parser_add
       (arg_parser_add arg_parser_create
          (Some ''-h'') (Some ''--help'') ARG_TYPE_FLAG False (Some ''Show help''))
       (Some ''-n'') (Some ''--name'') ARG_TYPE_VALUE True (Some ''Your name'')"

section \<open>The loops in terms of the first matching entry\<close>

subsection \<open>Evaluation on examples\<close>

lemmas eval_simps = example_parser_def arg_parser_add_def arg_parser_create_def
  name_matches_def scan_args.simps

lemmas parse_eval_simps = eval_simps parse_loop.simps check_required.simps arg_parser_parse_def

subsection \<open>The first matching entry\<close>

lemma first_match_Some_iff:
  "first_match as name = Some j \<longleftrightarrow>
     j < length as \<and> name_matches (as ! j) name \<and> (\<forall>k<j. \<not> name_matches (as ! k) name)"
proof (induction as arbitrary: j)
  case Nil
  then show ?case by simp
next
  case (Cons a as)
  show ?case
  proof (cases j)
    case 0
    then show ?thesis by auto
  next
    case (Suc j')
    show ?thesis
    proof (cases "name_matches a name")
      case True
      then show ?thesis using Suc by auto
    next
      case False
      have "(\<forall>k<Suc j'. \<not> name_matches ((a # as) ! k) name) \<longleftrightarrow>
            (\<forall>k<j'. \<not> name_matches (as ! k) name)"
        using False by (auto simp: less_Suc_eq_0_disj)
      then show ?thesis using False Suc Cons.IH [of j'] by auto
    qed
  qed
qed

lemma first_match_None_iff:
  "first_match as name = None \<longleftrightarrow> (\<forall>a\<in>set as. \<not> name_matches a name)"
  by (induction as) auto

lemma find_first_match:
  "find (\<lambda>a. name_matches a name) as = map_option (\<lambda>j. as ! j) (first_match as name)"
  by (induction as) (auto simp: option.map_comp comp_def)

lemma first_match_take:
  assumes "first_match as name = Some j" and "take (Suc j) bs = take (Suc j) as"
  shows "first_match bs name = Some j \<and> bs ! j = as ! j"
proof -
  from assms(1) have j: "j < length as" and m: "name_matches (as ! j) name"
    and before: "\<forall>k<j. \<not> name_matches (as ! k) name"
    by (simp_all add: first_match_Some_iff)
  have "length (take (Suc j) bs) = length (take (Suc j) as)"
    by (rule arg_cong [OF assms(2)])
  with j have jb: "j < length bs"
    by simp
  have same: "bs ! k = as ! k" if "k \<le> j" for k
  proof -
    have "bs ! k = take (Suc j) bs ! k"
      using that by simp
    also have "\<dots> = take (Suc j) as ! k"
      by (simp only: assms(2))
    also have "\<dots> = as ! k"
      using that by simp
    finally show ?thesis .
  qed
  then show ?thesis
    using jb m before by (simp add: first_match_Some_iff)
qed

lemma first_match_update:
  assumes "\<And>n. name_matches x n = name_matches (as ! j) n"
  shows "first_match (as[j := x]) name = first_match as name"
  using assms
proof (induction as arbitrary: j)
  case Nil
  then show ?case by simp
next
  case (Cons a as)
  show ?case
  proof (cases j)
    case 0
    with Cons.prems show ?thesis
      by simp
  next
    case (Suc j')
    with Cons.prems have "first_match (as[j' := x]) name = first_match as name"
      by (intro Cons.IH) simp
    with Suc show ?thesis
      by simp
  qed
qed

lemma name_matches_set_fld [simp]:
  "name_matches (a\<lparr>set_fld := b\<rparr>) name = name_matches a name"
  by (simp add: name_matches_def)

lemma name_matches_value_fld [simp]:
  "name_matches (a\<lparr>value_fld := v\<rparr>) name = name_matches a name"
  by (simp add: name_matches_def)

lemma nameless_no_match:
  "short_name e = None \<Longrightarrow> long_name e = None \<Longrightarrow> \<not> name_matches e name"
  by (simp add: name_matches_def)

lemma find_skip:
  "\<not> P e \<Longrightarrow> find P (xs @ e # ys) = find P (xs @ ys)"
  by (induction xs) simp_all

subsection \<open>The inner loop\<close>

lemma scan_args_skip:
  "j \<le> m \<Longrightarrow> m \<le> length as \<Longrightarrow> (\<forall>k. j \<le> k \<and> k < m \<longrightarrow> \<not> name_matches (as ! k) (argv ! i)) \<Longrightarrow>
   scan_args as argv i j = scan_args as argv i m"
proof (induction "m - j" arbitrary: j)
  case 0
  then show ?case by simp
next
  case (Suc d)
  then have "j < m" "j < length as" "\<not> name_matches (as ! j) (argv ! i)"
    by auto
  then have "scan_args as argv i j = scan_args as argv i (j + 1)"
    by (subst scan_args.simps) simp
  also have "\<dots> = scan_args as argv i m"
    using Suc by (intro Suc.hyps(1)) auto
  finally show ?case .
qed

lemma scan_args_first_match:
  assumes "first_match as (argv ! i) = Some j"
  shows "scan_args as argv i 0 =
     (if type_fld (as ! j) = ARG_TYPE_VALUE then
        (if i + 1 < length argv then
           Break (as[j := (as ! j)\<lparr>set_fld := True, value_fld := Some (argv ! (i + 1))\<rparr>]) (i + 1)
         else if required (as ! j) then
           Return0 (MissingValue (argv ! i)) (as[j := (as ! j)\<lparr>set_fld := True\<rparr>])
         else Break (as[j := (as ! j)\<lparr>set_fld := True\<rparr>]) i)
      else Break (as[j := (as ! j)\<lparr>set_fld := True\<rparr>]) i)"
proof -
  from assms have j: "j < length as" "name_matches (as ! j) (argv ! i)"
    and before: "\<forall>k<j. \<not> name_matches (as ! k) (argv ! i)"
    by (simp_all add: first_match_Some_iff)
  have "scan_args as argv i 0 = scan_args as argv i j"
    using j before by (intro scan_args_skip) auto
  then show ?thesis
    using j by (subst (asm) (2) scan_args.simps) (simp add: Let_def)
qed

lemma scan_args_no_match:
  assumes "first_match as (argv ! i) = None"
  shows "scan_args as argv i 0 = Exhausted"
proof -
  have "scan_args as argv i 0 = scan_args as argv i (length as)"
    using assms by (intro scan_args_skip) (auto simp: first_match_None_iff)
  then show ?thesis
    by (subst (asm) (2) scan_args.simps) simp
qed

lemma scan_args_Break_cases:
  assumes "scan_args as argv i 0 = Break as' i'"
  obtains j where "first_match as (argv ! i) = Some j"
    and "as' = as[j := (as ! j)\<lparr>set_fld := True\<rparr>] \<and> i' = i \<or>
         as' = as[j := (as ! j)\<lparr>set_fld := True, value_fld := Some (argv ! (i + 1))\<rparr>] \<and>
         i' = i + 1 \<and> type_fld (as ! j) = ARG_TYPE_VALUE \<and> i + 1 < length argv"
proof (cases "first_match as (argv ! i)")
  case None
  with assms show ?thesis
    by (simp add: scan_args_no_match)
next
  case (Some j)
  with assms that [of j] show ?thesis
    by (auto simp: scan_args_first_match split: if_splits)
qed

lemma scan_args_Return0_cases:
  assumes "scan_args as argv i 0 = Return0 e as'"
  obtains j where "first_match as (argv ! i) = Some j"
    and "e = MissingValue (argv ! i)"
    and "as' = as[j := (as ! j)\<lparr>set_fld := True\<rparr>]"
    and "type_fld (as ! j) = ARG_TYPE_VALUE"
    and "required (as ! j)"
    and "\<not> i + 1 < length argv"
proof (cases "first_match as (argv ! i)")
  case None
  with assms show ?thesis
    by (simp add: scan_args_no_match)
next
  case (Some j)
  with assms that [of j] show ?thesis
    by (auto simp: scan_args_first_match split: if_splits)
qed

subsection \<open>The queries\<close>

lemma get_value_from_find:
  "get_value_from parser name i =
     (case find (\<lambda>a. name_matches a name) (drop i (args parser)) of
        None \<Rightarrow> None | Some a \<Rightarrow> value_fld a)"
proof (induction parser name i rule: get_value_from.induct)
  case (1 parser name i)
  show ?case
  proof (cases "i < count parser")
    case True
    then have "drop i (args parser) = args parser ! i # drop (i + 1) (args parser)"
      by (simp add: Cons_nth_drop_Suc)
    with True 1 show ?thesis
      by (subst get_value_from.simps) simp
  next
    case False
    then show ?thesis
      by (subst get_value_from.simps) simp
  qed
qed

lemma is_flag_set_from_find:
  "is_flag_set_from parser name i =
     (case find (\<lambda>a. name_matches a name) (drop i (args parser)) of
        None \<Rightarrow> False | Some a \<Rightarrow> set_fld a)"
proof (induction parser name i rule: is_flag_set_from.induct)
  case (1 parser name i)
  show ?case
  proof (cases "i < count parser")
    case True
    then have "drop i (args parser) = args parser ! i # drop (i + 1) (args parser)"
      by (simp add: Cons_nth_drop_Suc)
    with True 1 show ?thesis
      by (subst is_flag_set_from.simps) simp
  next
    case False
    then show ?thesis
      by (subst is_flag_set_from.simps) simp
  qed
qed

lemma has_from_find:
  "has_from parser name i =
     (case find (\<lambda>a. name_matches a name) (drop i (args parser)) of
        None \<Rightarrow> False
      | Some a \<Rightarrow> (case type_fld a of ARG_TYPE_FLAG \<Rightarrow> set_fld a
                                   | ARG_TYPE_VALUE \<Rightarrow> value_fld a \<noteq> None))"
proof (induction parser name i rule: has_from.induct)
  case (1 parser name i)
  show ?case
  proof (cases "i < count parser")
    case True
    then have "drop i (args parser) = args parser ! i # drop (i + 1) (args parser)"
      by (simp add: Cons_nth_drop_Suc)
    with True 1 show ?thesis
      by (subst has_from.simps) simp
  next
    case False
    then show ?thesis
      by (subst has_from.simps) simp
  qed
qed

lemma get_value_first_match:
  "arg_parser_get_value parser name =
     (case first_match (args parser) name of
        None \<Rightarrow> None | Some j \<Rightarrow> value_fld (args parser ! j))"
  by (simp add: arg_parser_get_value_def get_value_from_find find_first_match
      split: option.splits)

lemma is_flag_set_first_match:
  "arg_parser_is_flag_set parser name =
     (case first_match (args parser) name of
        None \<Rightarrow> False | Some j \<Rightarrow> set_fld (args parser ! j))"
  by (simp add: arg_parser_is_flag_set_def is_flag_set_from_find find_first_match
      split: option.splits)

lemma has_first_match:
  "arg_parser_has parser name =
     (case first_match (args parser) name of
        None \<Rightarrow> False
      | Some j \<Rightarrow> (case type_fld (args parser ! j) of
                     ARG_TYPE_FLAG \<Rightarrow> set_fld (args parser ! j)
                   | ARG_TYPE_VALUE \<Rightarrow> value_fld (args parser ! j) \<noteq> None))"
  by (simp add: arg_parser_has_def has_from_find find_first_match
      split: option.splits)

subsection \<open>The check for required entries\<close>

lemma check_required_find:
  "check_required as j =
     (case find (\<lambda>a. required a \<and> \<not> set_fld a) (drop j as) of
        None \<Rightarrow> Inr () | Some a \<Rightarrow> Inl (MissingRequiredArgument (long_name a)))"
proof (induction as j rule: check_required.induct)
  case (1 as j)
  show ?case
  proof (cases "j < length as")
    case True
    then have "drop j as = as ! j # drop (j + 1) as"
      by (simp add: Cons_nth_drop_Suc)
    with True 1 show ?thesis
      by (subst check_required.simps) simp
  next
    case False
    then show ?thesis
      by (subst check_required.simps) simp
  qed
qed

lemma check_required_all_set:
  "(\<forall>a\<in>set as. required a \<longrightarrow> set_fld a) \<Longrightarrow> check_required as 0 = Inr ()"
  by (auto simp: check_required_find find_None_iff split: option.splits)

lemma check_required_not_MissingValue:
  "check_required as j \<noteq> Inl (MissingValue tok)"
  by (simp add: check_required_find split: option.splits)

text \<open>
  When the token loop has run to the end, a required entry that is not set makes the call
  return 0 with the \<^verbatim>\<open>long_name\<close> field of the first such entry as the reported name.
\<close>

lemma parse_missing_required:
  assumes "parse_loop (args parser) argv 1 = (Inr (), as)"
    and "e \<in> set as" and "required e" and "\<not> set_fld e"
  shows "\<exists>e'. find (\<lambda>a. required a \<and> \<not> set_fld a) as = Some e' \<and>
           e' \<in> set as \<and> required e' \<and> \<not> set_fld e' \<and>
           arg_parser_parse parser argv =
             (Inl (MissingRequiredArgument (long_name e')), parser\<lparr>args := as\<rparr>) \<and>
           return_code (fst (arg_parser_parse parser argv)) = 0"
proof -
  from assms(2-4) obtain e' where f: "find (\<lambda>a. required a \<and> \<not> set_fld a) as = Some e'"
    by (cases "find (\<lambda>a. required a \<and> \<not> set_fld a) as") (auto simp: find_None_iff)
  then have "e' \<in> set as" "required e'" "\<not> set_fld e'"
    by (auto simp: find_Some_iff)
  moreover have "arg_parser_parse parser argv =
      (Inl (MissingRequiredArgument (long_name e')), parser\<lparr>args := as\<rparr>)"
    using assms(1) f by (simp add: arg_parser_parse_def check_required_find)
  ultimately show ?thesis
    using f by (simp add: return_code_def)
qed

lemma parse_missing_required_example:
  "arg_parser_parse example_parser [''prog'', ''--help''] =
     (Inl (MissingRequiredArgument (Some ''--name'')),
      \<lparr>args =
        [\<lparr>short_name = Some ''-h'', long_name = Some ''--help'', type_fld = ARG_TYPE_FLAG,
           required = False, set_fld = True, value_fld = None,
           description = Some ''Show help''\<rparr>,
         \<lparr>short_name = Some ''-n'', long_name = Some ''--name'', type_fld = ARG_TYPE_VALUE,
           required = True, set_fld = False, value_fld = None,
           description = Some ''Your name''\<rparr>]\<rparr>)"
proof -
  let ?argv = "[''prog'', ''--help'']"
  let ?e = "\<lparr>short_name = Some ''-n'', long_name = Some ''--name'', type_fld = ARG_TYPE_VALUE,
           required = True, set_fld = False, value_fld = None,
           description = Some ''Your name''\<rparr>"
  let ?as = "[\<lparr>short_name = Some ''-h'', long_name = Some ''--help'', type_fld = ARG_TYPE_FLAG,
           required = False, set_fld = True, value_fld = None,
           description = Some ''Show help''\<rparr>, ?e]"
  have loop: "parse_loop (args example_parser) ?argv 1 = (Inr (), ?as)"
    by (simp add: parse_eval_simps)
  have e: "?e \<in> set ?as" "required ?e" "\<not> set_fld ?e"
    by simp_all
  show ?thesis
    using parse_missing_required [OF loop e] by (auto simp: eval_simps)
qed

subsection \<open>The outer loop\<close>

lemma parse_loop_Break:
  "i < length argv \<Longrightarrow> scan_args as argv i 0 = Break as' i' \<Longrightarrow>
   parse_loop as argv i = parse_loop as' argv (i' + 1)"
  by (subst parse_loop.simps) simp

lemma parse_loop_Return0:
  "i < length argv \<Longrightarrow> scan_args as argv i 0 = Return0 e as' \<Longrightarrow>
   parse_loop as argv i = (Inl e, as')"
  by (subst parse_loop.simps) simp

lemma parse_loop_Exhausted:
  "i < length argv \<Longrightarrow> scan_args as argv i 0 = Exhausted \<Longrightarrow>
   parse_loop as argv i = (Inl (UnrecognizedArgument (argv ! i)), as)"
  by (subst parse_loop.simps) simp

lemma parse_loop_end:
  "length argv \<le> i \<Longrightarrow> parse_loop as argv i = (Inr (), as)"
  by (subst parse_loop.simps) simp

lemma loop_state_parse_loop:
  "loop_state n as argv i = Some (as', i') \<Longrightarrow> parse_loop as argv i = parse_loop as' argv i'"
proof (induction n arbitrary: as i)
  case 0
  then show ?case by simp
next
  case (Suc n)
  then show ?case
    by (auto simp: parse_loop_Break split: if_splits scan_t.splits)
qed

lemma loop_state_Suc_last:
  "loop_state n as argv i = Some (as', i') \<Longrightarrow>
   loop_state (Suc n) as argv i = loop_state (Suc 0) as' argv i'"
proof (induction n arbitrary: as i)
  case 0
  then show ?case by simp
next
  case (Suc n)
  from Suc.prems obtain as1 i1 where lt: "i < length argv"
    and sc: "scan_args as argv i 0 = Break as1 i1"
    and rest: "loop_state n as1 argv (i1 + 1) = Some (as', i')"
    by (auto split: if_splits scan_t.splits)
  have "loop_state (Suc (Suc n)) as argv i = loop_state (Suc n) as1 argv (i1 + 1)"
    using lt sc by simp
  also have "\<dots> = loop_state (Suc 0) as' argv i'"
    using rest by (rule Suc.IH)
  finally show ?case .
qed

lemma loop_state_bounds:
  "loop_state n as argv i = Some (as', i') \<Longrightarrow> i + n \<le> i' \<and> length as' = length as"
proof (induction n arbitrary: as i)
  case 0
  then show ?case by simp
next
  case (Suc n)
  from Suc.prems obtain as1 i1 where lt: "i < length argv"
    and sc: "scan_args as argv i 0 = Break as1 i1"
    and rest: "loop_state n as1 argv (i1 + 1) = Some (as', i')"
    by (auto split: if_splits scan_t.splits)
  from sc have "i \<le> i1" "length as1 = length as"
    by (auto elim!: scan_args_Break_cases)
  with Suc.IH [OF rest] show ?case
    by simp
qed

lemma loop_state_frame:
  assumes "loop_state n as argv i = Some (as', i')" and "k < length as"
    and "\<forall>m. i \<le> m \<and> m < i' \<longrightarrow> \<not> name_matches (as ! k) (argv ! m)"
  shows "as' ! k = as ! k"
  using assms
proof (induction n arbitrary: as i)
  case 0
  then show ?case by simp
next
  case (Suc n)
  from Suc.prems(1) obtain as1 i1 where lt: "i < length argv"
    and sc: "scan_args as argv i 0 = Break as1 i1"
    and rest: "loop_state n as1 argv (i1 + 1) = Some (as', i')"
    by (auto split: if_splits scan_t.splits)
  from sc obtain j where fm: "first_match as (argv ! i) = Some j"
    and upd: "as1 = as[j := (as ! j)\<lparr>set_fld := True\<rparr>] \<and> i1 = i \<or>
         as1 = as[j := (as ! j)\<lparr>set_fld := True, value_fld := Some (argv ! (i + 1))\<rparr>] \<and>
         i1 = i + 1 \<and> type_fld (as ! j) = ARG_TYPE_VALUE \<and> i + 1 < length argv"
    by (rule scan_args_Break_cases)
  from upd have i1: "i \<le> i1" and len: "length as1 = length as"
    by auto
  from loop_state_bounds [OF rest] have "i1 + 1 \<le> i'"
    by simp
  with i1 Suc.prems(3) have "\<not> name_matches (as ! k) (argv ! i)"
    by simp
  moreover from fm have "name_matches (as ! j) (argv ! i)"
    by (simp add: first_match_Some_iff)
  ultimately have "k \<noteq> j"
    by auto
  with upd have same: "as1 ! k = as ! k"
    by auto
  have "as' ! k = as1 ! k"
  proof (rule Suc.IH [OF rest])
    show "k < length as1"
      using len Suc.prems(2) by simp
    show "\<forall>m. i1 + 1 \<le> m \<and> m < i' \<longrightarrow> \<not> name_matches (as1 ! k) (argv ! m)"
      using Suc.prems(3) i1 same by simp
  qed
  with same show ?case
    by simp
qed

lemma parse_loop_MissingValue:
  assumes "parse_loop as0 argv i0 = (Inl (MissingValue tok), as')"
  shows "\<exists>n as i j. loop_state n as0 argv i0 = Some (as, i) \<and> i + 1 = length argv \<and>
           tok = argv ! i \<and> first_match as tok = Some j \<and>
           type_fld (as ! j) = ARG_TYPE_VALUE \<and> required (as ! j) \<and>
           as' = as[j := (as ! j)\<lparr>set_fld := True\<rparr>]"
  using assms
proof (induction as0 argv i0 rule: parse_loop.induct)
  case (1 as0 argv i0)
  show ?case
  proof (cases "i0 < length argv")
    case False
    with "1.prems" show ?thesis
      by (simp add: parse_loop_end)
  next
    case True
    show ?thesis
    proof (cases "scan_args as0 argv i0 0")
      case (Break as1 i1)
      with True "1.prems" have "parse_loop as1 argv (i1 + 1) = (Inl (MissingValue tok), as')"
        by (simp add: parse_loop_Break)
      with True Break obtain n as i j where
        "loop_state n as1 argv (i1 + 1) = Some (as, i)" and rest: "i + 1 = length argv"
        "tok = argv ! i" "first_match as tok = Some j"
        "type_fld (as ! j) = ARG_TYPE_VALUE" "required (as ! j)"
        "as' = as[j := (as ! j)\<lparr>set_fld := True\<rparr>]"
        using "1.IH" by blast
      with True Break have "loop_state (Suc n) as0 argv i0 = Some (as, i)"
        by simp
      with rest show ?thesis
        by blast
    next
      case (Return0 e as1)
      with True "1.prems" have e: "e = MissingValue tok" and as1: "as1 = as'"
        by (simp_all add: parse_loop_Return0)
      from Return0 obtain j where "first_match as0 (argv ! i0) = Some j"
        and "e = MissingValue (argv ! i0)"
        and "as1 = as0[j := (as0 ! j)\<lparr>set_fld := True\<rparr>]"
        and "type_fld (as0 ! j) = ARG_TYPE_VALUE"
        and "required (as0 ! j)"
        and "\<not> i0 + 1 < length argv"
        by (rule scan_args_Return0_cases)
      with e as1 True have "loop_state 0 as0 argv i0 = Some (as0, i0) \<and> i0 + 1 = length argv \<and>
           tok = argv ! i0 \<and> first_match as0 tok = Some j \<and>
           type_fld (as0 ! j) = ARG_TYPE_VALUE \<and> required (as0 ! j) \<and>
           as' = as0[j := (as0 ! j)\<lparr>set_fld := True\<rparr>]"
        by auto
      then show ?thesis
        by blast
    next
      case Exhausted
      with True "1.prems" show ?thesis
        by (simp add: parse_loop_Exhausted)
    qed
  qed
qed

lemma parse_loop_length:
  "length (snd (parse_loop as argv i)) = length as"
proof (induction as argv i rule: parse_loop.induct)
  case (1 as argv i)
  show ?case
  proof (cases "i < length argv")
    case False
    then show ?thesis
      by (simp add: parse_loop_end)
  next
    case True
    show ?thesis
    proof (cases "scan_args as argv i 0")
      case (Break as' i')
      then have "length as' = length as"
        by (auto elim!: scan_args_Break_cases)
      with True Break "1.IH" show ?thesis
        by (simp add: parse_loop_Break)
    next
      case (Return0 e as')
      then have "length as' = length as"
        by (auto elim!: scan_args_Return0_cases)
      with True Return0 show ?thesis
        by (simp add: parse_loop_Return0)
    next
      case Exhausted
      with True show ?thesis
        by (simp add: parse_loop_Exhausted)
    qed
  qed
qed

lemma parse_loop_nameless_update:
  assumes "k < length as"
    and "\<And>n. \<not> name_matches (as ! k) n"
    and "\<And>n. \<not> name_matches e' n"
  shows "parse_loop (as[k := e']) argv i =
           (fst (parse_loop as argv i), (snd (parse_loop as argv i))[k := e'])"
  using assms(1,2)
proof (induction as argv i rule: parse_loop.induct)
  case (1 as argv i)
  note k = "1.prems"(1) and nameless = "1.prems"(2)
  show ?case
  proof (cases "i < length argv")
    case False
    then show ?thesis
      by (simp add: parse_loop_end)
  next
    case True
    have fm_eq: "first_match (as[k := e']) (argv ! i) = first_match as (argv ! i)"
      by (rule first_match_update) (simp add: nameless assms(3))
    show ?thesis
    proof (cases "first_match as (argv ! i)")
      case None
      with fm_eq True show ?thesis
        by (simp add: scan_args_no_match parse_loop_Exhausted)
    next
      case (Some j)
      then have j: "j < length as" and "name_matches (as ! j) (argv ! i)"
        by (simp_all add: first_match_Some_iff)
      with nameless have jk: "j \<noteq> k"
        by auto
      then have nth: "as[k := e'] ! j = as ! j"
        by simp
      have swap: "as[k := e', j := x] = as[j := x, k := e']" for x
        using jk by (simp add: list_update_swap)
      have keep: "k < length (as[j := x])" "\<And>n. \<not> name_matches (as[j := x] ! k) n" for x
        using k jk nameless by simp_all
      note sc = scan_args_first_match [OF Some]
      from fm_eq Some have "first_match (as[k := e']) (argv ! i) = Some j"
        by simp
      note sc' = scan_args_first_match [OF this, unfolded nth swap]
      consider
        (val) "type_fld (as ! j) = ARG_TYPE_VALUE" "i + 1 < length argv"
      | (miss) "type_fld (as ! j) = ARG_TYPE_VALUE" "\<not> i + 1 < length argv" "required (as ! j)"
      | (flag) "type_fld (as ! j) \<noteq> ARG_TYPE_VALUE \<or> \<not> i + 1 < length argv \<and> \<not> required (as ! j)"
        by blast
      then show ?thesis
      proof cases
        case val
        let ?as1 = "as[j := (as ! j)\<lparr>set_fld := True, value_fld := Some (argv ! (i + 1))\<rparr>]"
        from val sc have b: "scan_args as argv i 0 = Break ?as1 (i + 1)"
          by simp
        from val sc' have b': "scan_args (as[k := e']) argv i 0 = Break (?as1[k := e']) (i + 1)"
          by simp
        have "parse_loop (?as1[k := e']) argv (i + 1 + 1) =
            (fst (parse_loop ?as1 argv (i + 1 + 1)), (snd (parse_loop ?as1 argv (i + 1 + 1)))[k := e'])"
          using True b keep by (rule "1.IH")
        then show ?thesis
          using True b b' by (simp add: parse_loop_Break)
      next
        case miss
        with sc sc' True show ?thesis
          by (simp add: parse_loop_Return0)
      next
        case flag
        let ?as1 = "as[j := (as ! j)\<lparr>set_fld := True\<rparr>]"
        from flag sc have b: "scan_args as argv i 0 = Break ?as1 i"
          by auto
        from flag sc' have b': "scan_args (as[k := e']) argv i 0 = Break (?as1[k := e']) i"
          by auto
        have "parse_loop (?as1[k := e']) argv (i + 1) =
            (fst (parse_loop ?as1 argv (i + 1)), (snd (parse_loop ?as1 argv (i + 1)))[k := e'])"
          using True b keep by (rule "1.IH")
        then show ?thesis
          using True b b' by (simp add: parse_loop_Break)
      qed
    qed
  qed
qed

lemma parse_loop_shift:
  "parse_loop as argv i = parse_loop as (pre @ drop i argv) (length pre)"
proof (induction as argv i arbitrary: pre rule: parse_loop.induct)
  case (1 as argv i)
  let ?argv' = "pre @ drop i argv" and ?i' = "length pre"
  show ?case
  proof (cases "i < length argv")
    case False
    then show ?thesis
      by (simp add: parse_loop_end)
  next
    case True
    then have lt': "?i' < length ?argv'"
      by simp
    have tok: "?argv' ! ?i' = argv ! i"
      using True by (simp add: nth_append)
    have nxt: "?i' + 1 < length ?argv' \<longleftrightarrow> i + 1 < length argv"
      by auto
    have tok2: "?argv' ! (?i' + 1) = argv ! (i + 1)" if "i + 1 < length argv"
      using that by (simp add: nth_append)
    have one: "(pre @ [argv ! i]) @ drop (i + 1) argv = ?argv'"
      using True by (simp add: Cons_nth_drop_Suc)
    have two: "(pre @ [argv ! i, argv ! (i + 1)]) @ drop (i + 1 + 1) argv = ?argv'"
      if "i + 1 < length argv"
      using that True by (simp add: Cons_nth_drop_Suc)
    show ?thesis
    proof (cases "first_match as (argv ! i)")
      case None
      then have "scan_args as argv i 0 = Exhausted" "scan_args as ?argv' ?i' 0 = Exhausted"
        by (simp_all add: scan_args_no_match tok)
      with True lt' tok show ?thesis
        by (simp add: parse_loop_Exhausted)
    next
      case (Some j)
      note sc = scan_args_first_match [OF Some]
      from Some have "first_match as (?argv' ! ?i') = Some j"
        by (simp only: tok)
      note sc' = scan_args_first_match [OF this]
      consider
        (val) "type_fld (as ! j) = ARG_TYPE_VALUE" "i + 1 < length argv"
      | (miss) "type_fld (as ! j) = ARG_TYPE_VALUE" "\<not> i + 1 < length argv" "required (as ! j)"
      | (flag) "type_fld (as ! j) \<noteq> ARG_TYPE_VALUE \<or> \<not> i + 1 < length argv \<and> \<not> required (as ! j)"
        by blast
      then show ?thesis
      proof cases
        case val
        let ?as1 = "as[j := (as ! j)\<lparr>set_fld := True, value_fld := Some (argv ! (i + 1))\<rparr>]"
        from val sc have b: "scan_args as argv i 0 = Break ?as1 (i + 1)"
          by simp
        from val have "?i' + 1 < length ?argv'"
          using nxt by simp
        with val sc' have b': "scan_args as ?argv' ?i' 0 = Break ?as1 (?i' + 1)"
          by (simp only: tok tok2 [OF val(2)] if_True) simp
        have "parse_loop ?as1 argv (i + 1 + 1) =
            parse_loop ?as1 ((pre @ [argv ! i, argv ! (i + 1)]) @ drop (i + 1 + 1) argv)
              (length (pre @ [argv ! i, argv ! (i + 1)]))"
          using True b by (rule "1.IH")
        then have "parse_loop ?as1 argv (i + 1 + 1) = parse_loop ?as1 ?argv' (?i' + 1 + 1)"
          by (simp only: two [OF val(2)]) simp
        then show ?thesis
          using parse_loop_Break [OF True b] parse_loop_Break [OF lt' b'] by simp
      next
        case miss
        from miss sc have b: "scan_args as argv i 0 =
            Return0 (MissingValue (argv ! i)) (as[j := (as ! j)\<lparr>set_fld := True\<rparr>])"
          by simp
        from miss have "\<not> ?i' + 1 < length ?argv'"
          using nxt by simp
        with miss sc' have b': "scan_args as ?argv' ?i' 0 =
            Return0 (MissingValue (argv ! i)) (as[j := (as ! j)\<lparr>set_fld := True\<rparr>])"
          by (simp only: tok if_True if_False) simp
        show ?thesis
          using parse_loop_Return0 [OF True b] parse_loop_Return0 [OF lt' b'] by simp
      next
        case flag
        let ?as1 = "as[j := (as ! j)\<lparr>set_fld := True\<rparr>]"
        from flag sc have b: "scan_args as argv i 0 = Break ?as1 i"
          by auto
        have "scan_args as ?argv' ?i' 0 =
            (if type_fld (as ! j) = ARG_TYPE_VALUE then
               (if i + 1 < length argv then
                  Break (as[j := (as ! j)\<lparr>set_fld := True,
                    value_fld := Some (?argv' ! (?i' + 1))\<rparr>]) (?i' + 1)
                else if required (as ! j) then
                  Return0 (MissingValue (argv ! i)) ?as1
                else Break ?as1 ?i')
             else Break ?as1 ?i')"
          using sc' by (simp only: tok nxt)
        with flag have b': "scan_args as ?argv' ?i' 0 = Break ?as1 ?i'"
          by auto
        have "parse_loop ?as1 argv (i + 1) =
            parse_loop ?as1 ((pre @ [argv ! i]) @ drop (i + 1) argv) (length (pre @ [argv ! i]))"
          using True b by (rule "1.IH")
        then have "parse_loop ?as1 argv (i + 1) = parse_loop ?as1 ?argv' (?i' + 1)"
          by (simp only: one) simp
        then show ?thesis
          using parse_loop_Break [OF True b] parse_loop_Break [OF lt' b'] by simp
      qed
    qed
  qed
qed

lemma parse_loop_set_mono:
  "k < length as \<Longrightarrow> set_fld (as ! k) \<Longrightarrow> set_fld (snd (parse_loop as argv i) ! k)"
proof (induction as argv i rule: parse_loop.induct)
  case (1 as argv i)
  show ?case
  proof (cases "i < length argv")
    case False
    with "1.prems" show ?thesis
      by (simp add: parse_loop_end)
  next
    case True
    show ?thesis
    proof (cases "scan_args as argv i 0")
      case (Break as' i')
      then have "k < length as'" "set_fld (as' ! k)"
        using "1.prems"
        by (auto elim!: scan_args_Break_cases simp: nth_list_update first_match_Some_iff)
      with True Break have "set_fld (snd (parse_loop as' argv (i' + 1)) ! k)"
        by (rule "1.IH")
      then show ?thesis
        using True Break by (simp add: parse_loop_Break)
    next
      case (Return0 e as')
      then have "set_fld (as' ! k)"
        using "1.prems"
        by (auto elim!: scan_args_Return0_cases simp: nth_list_update first_match_Some_iff)
      then show ?thesis
        using True Return0 by (simp add: parse_loop_Return0)
    next
      case Exhausted
      with True "1.prems" show ?thesis
        by (simp add: parse_loop_Exhausted)
    qed
  qed
qed

lemma parse_loop_frame:
  assumes "k < length as"
    and "\<forall>m. i \<le> m \<and> m < length argv \<longrightarrow> \<not> name_matches (as ! k) (argv ! m)"
  shows "snd (parse_loop as argv i) ! k = as ! k"
  using assms
proof (induction as argv i rule: parse_loop.induct)
  case (1 as argv i)
  show ?case
  proof (cases "i < length argv")
    case False
    then show ?thesis
      by (simp add: parse_loop_end)
  next
    case True
    with "1.prems"(2) have nm: "\<not> name_matches (as ! k) (argv ! i)"
      by simp
    show ?thesis
    proof (cases "scan_args as argv i 0")
      case (Break as' i')
      then obtain j where fm: "first_match as (argv ! i) = Some j"
        and upd: "as' = as[j := (as ! j)\<lparr>set_fld := True\<rparr>] \<and> i' = i \<or>
         as' = as[j := (as ! j)\<lparr>set_fld := True, value_fld := Some (argv ! (i + 1))\<rparr>] \<and>
         i' = i + 1 \<and> type_fld (as ! j) = ARG_TYPE_VALUE \<and> i + 1 < length argv"
        by (rule scan_args_Break_cases)
      from fm nm have "k \<noteq> j"
        by (auto simp: first_match_Some_iff)
      with upd have same: "as' ! k = as ! k" and len: "length as' = length as" and i': "i \<le> i'"
        by auto
      have "snd (parse_loop as' argv (i' + 1)) ! k = as' ! k"
        using True Break
      proof (rule "1.IH")
        show "k < length as'"
          using len "1.prems"(1) by simp
        show "\<forall>m. i' + 1 \<le> m \<and> m < length argv \<longrightarrow> \<not> name_matches (as' ! k) (argv ! m)"
          using "1.prems"(2) i' same by simp
      qed
      then show ?thesis
        using True Break same by (simp add: parse_loop_Break)
    next
      case (Return0 e as')
      then obtain j where fm: "first_match as (argv ! i) = Some j"
        and upd: "as' = as[j := (as ! j)\<lparr>set_fld := True\<rparr>]"
        by (rule scan_args_Return0_cases)
      from fm nm have "k \<noteq> j"
        by (auto simp: first_match_Some_iff)
      with upd True Return0 show ?thesis
        by (simp add: parse_loop_Return0)
    next
      case Exhausted
      with True show ?thesis
        by (simp add: parse_loop_Exhausted)
    qed
  qed
qed

lemma arg_parser_parse_args:
  "args (snd (arg_parser_parse parser argv)) = snd (parse_loop (args parser) argv 1)"
  by (simp add: arg_parser_parse_def split: prod.splits sum.splits)

lemma arg_parser_parse_from:
  assumes "parse_loop (args parser) argv 1 = parse_loop as argv' 1"
  shows "arg_parser_parse parser argv = arg_parser_parse (parser\<lparr>args := as\<rparr>) argv'"
  using assms by (simp add: arg_parser_parse_def split: prod.splits sum.splits)


lemma parse_loop_sets_first_match:
  assumes "i < length argv" and "first_match as (argv ! i) = Some j"
  shows "set_fld (snd (parse_loop as argv i) ! j)"
proof -
  from assms(2) have j: "j < length as"
    by (simp add: first_match_Some_iff)
  show ?thesis
  proof (cases "scan_args as argv i 0")
    case (Break as' i')
    then have "j < length as'" "set_fld (as' ! j)"
      using j assms(2) by (auto elim!: scan_args_Break_cases)
    then have "set_fld (snd (parse_loop as' argv (i' + 1)) ! j)"
      by (rule parse_loop_set_mono)
    then show ?thesis
      using assms(1) Break by (simp add: parse_loop_Break)
  next
    case (Return0 e as')
    then have "set_fld (as' ! j)"
      using j assms(2) by (auto elim!: scan_args_Return0_cases)
    then show ?thesis
      using assms(1) Return0 by (simp add: parse_loop_Return0)
  next
    case Exhausted
    with assms(2) show ?thesis
      by (simp add: scan_args_first_match split: if_splits)
  qed
qed

subsection \<open>The invariant\<close>

lemma list_all_update:
  "list_all P as \<Longrightarrow> P x \<Longrightarrow> list_all P (as[j := x])"
  using set_update_subset_insert [of as j x] by (auto simp: list_all_iff)

lemma scan_args_Break_inv:
  assumes "list_all entry_inv as"
    and "scan_args as argv i 0 = Break as' i'"
  shows "list_all entry_inv as'"
proof -
  from assms(2) obtain j where fm: "first_match as (argv ! i) = Some j"
    and upd: "as' = as[j := (as ! j)\<lparr>set_fld := True\<rparr>] \<and> i' = i \<or>
         as' = as[j := (as ! j)\<lparr>set_fld := True, value_fld := Some (argv ! (i + 1))\<rparr>] \<and>
         i' = i + 1 \<and> type_fld (as ! j) = ARG_TYPE_VALUE \<and> i + 1 < length argv"
    by (rule scan_args_Break_cases)
  from fm have "j < length as"
    by (simp add: first_match_Some_iff)
  with assms(1) have "entry_inv (as ! j)"
    by (simp add: list_all_length)
  then have "entry_inv ((as ! j)\<lparr>set_fld := True\<rparr>)"
    and "type_fld (as ! j) = ARG_TYPE_VALUE \<Longrightarrow>
      entry_inv ((as ! j)\<lparr>set_fld := True, value_fld := Some (argv ! (i + 1))\<rparr>)"
    by (simp_all add: entry_inv_def)
  with upd assms(1) show ?thesis
    by (auto intro!: list_all_update)
qed

lemma scan_args_Return0_inv:
  assumes "list_all entry_inv as"
    and "scan_args as argv i 0 = Return0 e as'"
  shows "list_all entry_inv as'"
proof -
  from assms(2) obtain j where upd: "as' = as[j := (as ! j)\<lparr>set_fld := True\<rparr>]"
    and "first_match as (argv ! i) = Some j"
    by (rule scan_args_Return0_cases)
  then have "j < length as"
    by (simp add: first_match_Some_iff)
  with assms(1) have "entry_inv (as ! j)"
    by (simp add: list_all_length)
  then have "entry_inv ((as ! j)\<lparr>set_fld := True\<rparr>)"
    by (simp add: entry_inv_def)
  with upd assms(1) show ?thesis
    by (simp add: list_all_update)
qed

lemma parse_loop_inv:
  "list_all entry_inv as \<Longrightarrow>
   list_all entry_inv (snd (parse_loop as argv i))"
proof (induction as argv i rule: parse_loop.induct)
  case (1 as argv i)
  show ?case
  proof (cases "i < length argv")
    case False
    with "1.prems" show ?thesis
      by (simp add: parse_loop_end)
  next
    case True
    show ?thesis
    proof (cases "scan_args as argv i 0")
      case (Break as' i')
      from "1.prems" Break have "list_all entry_inv as'"
        by (rule scan_args_Break_inv)
      with True Break have "list_all entry_inv (snd (parse_loop as' argv (i' + 1)))"
        by (rule "1.IH")
      then show ?thesis
        using True Break by (simp add: parse_loop_Break)
    next
      case (Return0 e as')
      from "1.prems" Return0 have "list_all entry_inv as'"
        by (rule scan_args_Return0_inv)
      then show ?thesis
        using True Return0 by (simp add: parse_loop_Return0)
    next
      case Exhausted
      with True "1.prems" show ?thesis
        by (simp add: parse_loop_Exhausted)
    qed
  qed
qed

lemma arg_parser_create_inv: "value_inv arg_parser_create"
  by (simp add: value_inv_def arg_parser_create_def)

lemma arg_parser_add_inv:
  "value_inv parser \<Longrightarrow> value_inv (arg_parser_add parser sn ln ty req descr)"
  by (simp add: value_inv_def entry_inv_def arg_parser_add_def)

lemma arg_parser_parse_inv:
  assumes "value_inv parser"
  shows "value_inv (snd (arg_parser_parse parser argv))"
proof -
  have "args (snd (arg_parser_parse parser argv)) = snd (parse_loop (args parser) argv 1)"
    by (simp add: arg_parser_parse_def split: prod.splits sum.splits)
  with assms parse_loop_inv [of "args parser" argv 1] show ?thesis
    by (simp add: value_inv_def)
qed

lemma foldl_apply_call_inv:
  "value_inv parser \<Longrightarrow> value_inv (foldl apply_call parser calls)"
proof (induction calls arbitrary: parser)
  case Nil
  then show ?case by simp
next
  case (Cons c calls)
  have "value_inv (apply_call parser c)"
    using Cons.prems by (cases c) (simp_all add: arg_parser_add_inv arg_parser_parse_inv)
  then show ?case
    using Cons.IH by simp
qed

section \<open>Properties of the parser\<close>

text \<open>
  C1. \<^verbatim>\<open>arg_parser_parse\<close> looks at the tokens from left to right, starting at index 1,
  after the program name. Let its outer loop reach the token at index \<open>i\<close> with entries
  \<open>as\<close>, and let \<open>j\<close> be the first entry whose short or long name equals that token. Then the
  call keeps the number of entries, and entry \<open>j\<close> has its \<^verbatim>\<open>set\<close> field true in the parser
  the call leaves.

  If entry \<open>j\<close> is a flag, the iteration sets its \<^verbatim>\<open>set\<close> field, changes no other entry, and
  the loop goes on at index \<open>i + 1\<close>: the call gives what a call gives that starts from these
  entries with only the tokens after index \<open>i\<close>.

  If entry \<open>j\<close> is a value option and a token follows, the iteration sets its \<^verbatim>\<open>set\<close> field,
  stores the following token in its \<^verbatim>\<open>value\<close> field, changes no other entry, and the loop
  goes on at index \<open>i + 2\<close>: the call gives what a call gives that starts from these entries
  with only the tokens after index \<open>i + 1\<close>.

  In both cases, when no later token equals a name of entry \<open>j\<close>, the entry is in the final
  parser exactly as this iteration left it.
\<close>

theorem parse_token_step:
  assumes "loop_state n (args parser) argv 1 = Some (as, i)"
    and "i < length argv"
    and "first_match as (argv ! i) = Some j"
  shows "count (snd (arg_parser_parse parser argv)) = count parser \<and>
         set_fld (args (snd (arg_parser_parse parser argv)) ! j) \<and>
         (type_fld (as ! j) = ARG_TYPE_FLAG \<longrightarrow>
            loop_state (Suc n) (args parser) argv 1 =
              Some (as[j := (as ! j)\<lparr>set_fld := True\<rparr>], i + 1) \<and>
            arg_parser_parse parser argv =
              arg_parser_parse (parser\<lparr>args := as[j := (as ! j)\<lparr>set_fld := True\<rparr>]\<rparr>)
                (argv ! 0 # drop (i + 1) argv) \<and>
            ((\<forall>m. i + 1 \<le> m \<and> m < length argv \<longrightarrow> \<not> name_matches (as ! j) (argv ! m)) \<longrightarrow>
               args (snd (arg_parser_parse parser argv)) ! j = (as ! j)\<lparr>set_fld := True\<rparr>)) \<and>
         (type_fld (as ! j) = ARG_TYPE_VALUE \<and> i + 1 < length argv \<longrightarrow>
            loop_state (Suc n) (args parser) argv 1 =
              Some (as[j := (as ! j)\<lparr>set_fld := True, value_fld := Some (argv ! (i + 1))\<rparr>], i + 2) \<and>
            arg_parser_parse parser argv =
              arg_parser_parse
                (parser\<lparr>args :=
                   as[j := (as ! j)\<lparr>set_fld := True, value_fld := Some (argv ! (i + 1))\<rparr>]\<rparr>)
                (argv ! 0 # drop (i + 2) argv) \<and>
            ((\<forall>m. i + 2 \<le> m \<and> m < length argv \<longrightarrow> \<not> name_matches (as ! j) (argv ! m)) \<longrightarrow>
               args (snd (arg_parser_parse parser argv)) ! j =
                 (as ! j)\<lparr>set_fld := True, value_fld := Some (argv ! (i + 1))\<rparr>))"
proof -
  note sc = scan_args_first_match [OF assms(3)]
  from assms(3) have j: "j < length as"
    by (simp add: first_match_Some_iff)
  have len: "length as = count parser"
    using loop_state_bounds [OF assms(1)] by simp
  have last: "loop_state (Suc n) (args parser) argv 1 = loop_state (Suc 0) as argv i"
    using assms(1) by (rule loop_state_Suc_last)
  have pl: "parse_loop (args parser) argv 1 = parse_loop as argv i"
    using assms(1) by (rule loop_state_parse_loop)
  have fin: "args (snd (arg_parser_parse parser argv)) = snd (parse_loop as argv i)"
    by (simp only: arg_parser_parse_args pl)
  have cnt: "count (snd (arg_parser_parse parser argv)) = count parser"
    by (simp add: fin parse_loop_length len)
  have st: "set_fld (args (snd (arg_parser_parse parser argv)) ! j)"
    using parse_loop_sets_first_match [OF assms(2,3)] by (simp add: fin)
  have step: "loop_state (Suc n) (args parser) argv 1 = Some (as', i' + 1) \<and>
      arg_parser_parse parser argv =
        arg_parser_parse (parser\<lparr>args := as'\<rparr>) (argv ! 0 # drop (i' + 1) argv) \<and>
      ((\<forall>m. i' + 1 \<le> m \<and> m < length argv \<longrightarrow> \<not> name_matches (as ! j) (argv ! m)) \<longrightarrow>
         args (snd (arg_parser_parse parser argv)) ! j = as' ! j)"
    if b: "scan_args as argv i 0 = Break as' i'"
      and names: "\<And>name. name_matches (as' ! j) name = name_matches (as ! j) name"
      and len': "length as' = length as"
    for as' i'
  proof -
    have nxt: "parse_loop as argv i = parse_loop as' argv (i' + 1)"
      using assms(2) b by (rule parse_loop_Break)
    have "parse_loop as' argv (i' + 1) =
        parse_loop as' ([argv ! 0] @ drop (i' + 1) argv) (length [argv ! 0])"
      by (rule parse_loop_shift)
    with pl nxt have "parse_loop (args parser) argv 1 =
        parse_loop as' (argv ! 0 # drop (i' + 1) argv) 1"
      by simp
    then have eq: "arg_parser_parse parser argv =
        arg_parser_parse (parser\<lparr>args := as'\<rparr>) (argv ! 0 # drop (i' + 1) argv)"
      by (rule arg_parser_parse_from)
    have "args (snd (arg_parser_parse parser argv)) ! j = as' ! j"
      if "\<forall>m. i' + 1 \<le> m \<and> m < length argv \<longrightarrow> \<not> name_matches (as ! j) (argv ! m)"
    proof -
      have "snd (parse_loop as' argv (i' + 1)) ! j = as' ! j"
        using j len' that by (intro parse_loop_frame) (simp_all add: names)
      then show ?thesis
        by (simp add: fin nxt)
    qed
    moreover have "loop_state (Suc n) (args parser) argv 1 = Some (as', i' + 1)"
      using last b assms(2) by simp
    ultimately show ?thesis
      using eq by blast
  qed
  have flag: "loop_state (Suc n) (args parser) argv 1 =
        Some (as[j := (as ! j)\<lparr>set_fld := True\<rparr>], i + 1) \<and>
      arg_parser_parse parser argv =
        arg_parser_parse (parser\<lparr>args := as[j := (as ! j)\<lparr>set_fld := True\<rparr>]\<rparr>)
          (argv ! 0 # drop (i + 1) argv) \<and>
      ((\<forall>m. i + 1 \<le> m \<and> m < length argv \<longrightarrow> \<not> name_matches (as ! j) (argv ! m)) \<longrightarrow>
         args (snd (arg_parser_parse parser argv)) ! j = (as ! j)\<lparr>set_fld := True\<rparr>)"
    if "type_fld (as ! j) = ARG_TYPE_FLAG"
  proof -
    from that sc have b: "scan_args as argv i 0 = Break (as[j := (as ! j)\<lparr>set_fld := True\<rparr>]) i"
      by simp
    have nj: "as[j := (as ! j)\<lparr>set_fld := True\<rparr>] ! j = (as ! j)\<lparr>set_fld := True\<rparr>"
      using j by simp
    have "loop_state (Suc n) (args parser) argv 1 =
        Some (as[j := (as ! j)\<lparr>set_fld := True\<rparr>], i + 1) \<and>
      arg_parser_parse parser argv =
        arg_parser_parse (parser\<lparr>args := as[j := (as ! j)\<lparr>set_fld := True\<rparr>]\<rparr>)
          (argv ! 0 # drop (i + 1) argv) \<and>
      ((\<forall>m. i + 1 \<le> m \<and> m < length argv \<longrightarrow> \<not> name_matches (as ! j) (argv ! m)) \<longrightarrow>
         args (snd (arg_parser_parse parser argv)) ! j =
           as[j := (as ! j)\<lparr>set_fld := True\<rparr>] ! j)"
      by (rule step [OF b]) (use j in simp_all)
    then show ?thesis
      unfolding nj .
  qed
  have val: "loop_state (Suc n) (args parser) argv 1 =
        Some (as[j := (as ! j)\<lparr>set_fld := True, value_fld := Some (argv ! (i + 1))\<rparr>], i + 2) \<and>
      arg_parser_parse parser argv =
        arg_parser_parse
          (parser\<lparr>args :=
             as[j := (as ! j)\<lparr>set_fld := True, value_fld := Some (argv ! (i + 1))\<rparr>]\<rparr>)
          (argv ! 0 # drop (i + 2) argv) \<and>
      ((\<forall>m. i + 2 \<le> m \<and> m < length argv \<longrightarrow> \<not> name_matches (as ! j) (argv ! m)) \<longrightarrow>
         args (snd (arg_parser_parse parser argv)) ! j =
           (as ! j)\<lparr>set_fld := True, value_fld := Some (argv ! (i + 1))\<rparr>)"
    if "type_fld (as ! j) = ARG_TYPE_VALUE \<and> i + 1 < length argv"
  proof -
    from that sc have b: "scan_args as argv i 0 =
        Break (as[j := (as ! j)\<lparr>set_fld := True, value_fld := Some (argv ! (i + 1))\<rparr>]) (i + 1)"
      by simp
    have two: "i + 1 + 1 = i + 2"
      by simp
    have nj: "as[j := (as ! j)\<lparr>set_fld := True, value_fld := Some (argv ! (i + 1))\<rparr>] ! j =
        (as ! j)\<lparr>set_fld := True, value_fld := Some (argv ! (i + 1))\<rparr>"
      using j by simp
    have "loop_state (Suc n) (args parser) argv 1 =
        Some (as[j := (as ! j)\<lparr>set_fld := True, value_fld := Some (argv ! (i + 1))\<rparr>],
              i + 1 + 1) \<and>
      arg_parser_parse parser argv =
        arg_parser_parse
          (parser\<lparr>args :=
             as[j := (as ! j)\<lparr>set_fld := True, value_fld := Some (argv ! (i + 1))\<rparr>]\<rparr>)
          (argv ! 0 # drop (i + 1 + 1) argv) \<and>
      ((\<forall>m. i + 1 + 1 \<le> m \<and> m < length argv \<longrightarrow> \<not> name_matches (as ! j) (argv ! m)) \<longrightarrow>
         args (snd (arg_parser_parse parser argv)) ! j =
           as[j := (as ! j)\<lparr>set_fld := True, value_fld := Some (argv ! (i + 1))\<rparr>] ! j)"
      by (rule step [OF b]) (use j in simp_all)
    then show ?thesis
      unfolding nj two .
  qed
  from cnt st flag val show ?thesis
    by blast
qed

theorem parse_token_step_witness:
  "arg_parser_parse example_parser [''prog'', ''--help'', ''-n'', ''Alice''] =
     (Inr (),
      \<lparr>args =
        [\<lparr>short_name = Some ''-h'', long_name = Some ''--help'', type_fld = ARG_TYPE_FLAG,
           required = False, set_fld = True, value_fld = None,
           description = Some ''Show help''\<rparr>,
         \<lparr>short_name = Some ''-n'', long_name = Some ''--name'', type_fld = ARG_TYPE_VALUE,
           required = True, set_fld = True, value_fld = Some ''Alice'',
           description = Some ''Your name''\<rparr>]\<rparr>)"
proof -
  let ?argv = "[''prog'', ''--help'', ''-n'', ''Alice'']"
  let ?as1 = "(args example_parser)[0 := (args example_parser ! 0)\<lparr>set_fld := True\<rparr>]"
  let ?p1 = "example_parser\<lparr>args := ?as1\<rparr>"
  let ?argv1 = "[''prog'', ''-n'', ''Alice'']"
  let ?as2 = "?as1[1 := (?as1 ! 1)\<lparr>set_fld := True, value_fld := Some ''Alice''\<rparr>]"
  let ?p2 = "?p1\<lparr>args := ?as2\<rparr>"
  have r0: "loop_state 0 (args example_parser) ?argv 1 = Some (args example_parser, 1)"
    by simp
  have m0: "first_match (args example_parser) (?argv ! 1) = Some 0"
    by (simp add: eval_simps)
  have f0: "type_fld (args example_parser ! 0) = ARG_TYPE_FLAG"
    by (simp add: eval_simps)
  have s1: "arg_parser_parse example_parser ?argv = arg_parser_parse ?p1 ?argv1"
    using parse_token_step [OF r0 _ m0] f0 by simp
  have r1: "loop_state 0 (args ?p1) ?argv1 1 = Some (?as1, 1)"
    by simp
  have m1: "first_match ?as1 (?argv1 ! 1) = Some 1"
    by (simp add: eval_simps)
  have f1: "type_fld (?as1 ! 1) = ARG_TYPE_VALUE \<and> 1 + 1 < length ?argv1"
    by (simp add: eval_simps)
  have s2: "arg_parser_parse ?p1 ?argv1 = arg_parser_parse ?p2 [''prog'']"
    using parse_token_step [OF r1 _ m1] f1 by simp
  have "arg_parser_parse ?p2 [''prog''] = (Inr (), ?p2)"
    by (simp add: parse_eval_simps)
  with s1 s2 show ?thesis
    by (simp add: eval_simps)
qed

text \<open>
  C2. When the outer loop reaches, with entries \<open>as\<close>, a token that equals no short or long
  name of any entry, \<^verbatim>\<open>arg_parser_parse\<close> reports that token as unrecognized and returns 0.
  The parser it leaves behind holds exactly \<open>as\<close>: what the earlier tokens set stays set, and
  no later token is looked at. In particular an entry that equals none of the tokens before
  the unrecognized one is as it was before the call, whatever tokens come later.
\<close>

theorem parse_unrecognized:
  assumes "loop_state n (args parser) argv 1 = Some (as, i)"
    and "i < length argv"
    and "first_match as (argv ! i) = None"
  shows "arg_parser_parse parser argv =
           (Inl (UnrecognizedArgument (argv ! i)), parser\<lparr>args := as\<rparr>) \<and>
         return_code (fst (arg_parser_parse parser argv)) = 0 \<and>
         (\<forall>k<count parser.
            (\<forall>m. 1 \<le> m \<and> m < i \<longrightarrow> \<not> name_matches (args parser ! k) (argv ! m)) \<longrightarrow>
            as ! k = args parser ! k)"
proof -
  have "parse_loop (args parser) argv 1 = parse_loop as argv i"
    using assms(1) by (rule loop_state_parse_loop)
  also have "\<dots> = (Inl (UnrecognizedArgument (argv ! i)), as)"
    using assms(2) scan_args_no_match [OF assms(3)] by (rule parse_loop_Exhausted)
  finally have res: "arg_parser_parse parser argv =
      (Inl (UnrecognizedArgument (argv ! i)), parser\<lparr>args := as\<rparr>)"
    by (simp add: arg_parser_parse_def)
  moreover from res have "return_code (fst (arg_parser_parse parser argv)) = 0"
    by (simp add: return_code_def)
  moreover have "\<forall>k<count parser.
      (\<forall>m. 1 \<le> m \<and> m < i \<longrightarrow> \<not> name_matches (args parser ! k) (argv ! m)) \<longrightarrow>
      as ! k = args parser ! k"
    using loop_state_frame [OF assms(1)] by blast
  ultimately show ?thesis
    by blast
qed

theorem parse_unrecognized_witness:
  "arg_parser_parse example_parser [''prog'', ''--help'', ''bogus'', ''-n'', ''Alice''] =
     (Inl (UnrecognizedArgument ''bogus''),
      \<lparr>args =
        [\<lparr>short_name = Some ''-h'', long_name = Some ''--help'', type_fld = ARG_TYPE_FLAG,
           required = False, set_fld = True, value_fld = None,
           description = Some ''Show help''\<rparr>,
         \<lparr>short_name = Some ''-n'', long_name = Some ''--name'', type_fld = ARG_TYPE_VALUE,
           required = True, set_fld = False, value_fld = None,
           description = Some ''Your name''\<rparr>]\<rparr>)"
proof -
  let ?argv = "[''prog'', ''--help'', ''bogus'', ''-n'', ''Alice'']"
  let ?as = "(args example_parser)[0 := (args example_parser ! 0)\<lparr>set_fld := True\<rparr>]"
  have reach: "loop_state (Suc 0) (args example_parser) ?argv 1 = Some (?as, 2)"
    by (simp add: eval_simps)
  have lt: "2 < length ?argv"
    by simp
  have none: "first_match ?as (?argv ! 2) = None"
    by (simp add: eval_simps)
  show ?thesis
    using parse_unrecognized [OF reach lt none] by (simp add: eval_simps)
qed

text \<open>
  C3. A required entry that is still not set when all tokens are consumed makes
  \<^verbatim>\<open>arg_parser_parse\<close> return 0 and report a missing required argument, but the name it
  reports is not always a name of the entry. For the registry with the one required flag
  \<^verbatim>\<open>-r\<close>, registered without a long name, and no tokens after the program name, the call
  reports the entry's \<^verbatim>\<open>long_name\<close> pointer, which is \<^verbatim>\<open>NULL\<close>: neither a long name nor the
  short name \<^verbatim>\<open>-r\<close>.
\<close>

theorem parse_missing_required_short_only:
  "arg_parser_parse
     (arg_parser_add arg_parser_create (Some ''-r'') None ARG_TYPE_FLAG True (Some ''Run''))
     [''prog''] =
     (Inl (MissingRequiredArgument None),
      \<lparr>args =
        [\<lparr>short_name = Some ''-r'', long_name = None, type_fld = ARG_TYPE_FLAG,
           required = True, set_fld = False, value_fld = None,
           description = Some ''Run''\<rparr>]\<rparr>)"
  by (simp add: parse_eval_simps)

text \<open>
  C4. When the outer loop reaches the last token of \<^verbatim>\<open>argv\<close>, and the first entry that token
  equals is a required value option, \<^verbatim>\<open>arg_parser_parse\<close> returns 0 at once and reports a
  missing value for that token. The entry's \<^verbatim>\<open>set\<close> field is true in the parser it leaves.
\<close>

theorem parse_missing_value:
  assumes "loop_state n (args parser) argv 1 = Some (as, i)"
    and "i + 1 = length argv"
    and "first_match as (argv ! i) = Some j"
    and "type_fld (as ! j) = ARG_TYPE_VALUE"
    and "required (as ! j)"
  shows "arg_parser_parse parser argv =
           (Inl (MissingValue (argv ! i)), parser\<lparr>args := as[j := (as ! j)\<lparr>set_fld := True\<rparr>]\<rparr>) \<and>
         return_code (fst (arg_parser_parse parser argv)) = 0"
proof -
  have lt: "i < length argv"
    using assms(2) by simp
  have sc: "scan_args as argv i 0 =
      Return0 (MissingValue (argv ! i)) (as[j := (as ! j)\<lparr>set_fld := True\<rparr>])"
    using scan_args_first_match [OF assms(3)] assms(2,4,5) by simp
  have "parse_loop (args parser) argv 1 = parse_loop as argv i"
    using assms(1) by (rule loop_state_parse_loop)
  also have "\<dots> = (Inl (MissingValue (argv ! i)), as[j := (as ! j)\<lparr>set_fld := True\<rparr>])"
    using lt sc by (rule parse_loop_Return0)
  finally show ?thesis
    by (simp add: arg_parser_parse_def return_code_def)
qed

theorem parse_missing_value_witness:
  "arg_parser_parse example_parser [''prog'', ''--help'', ''--name''] =
     (Inl (MissingValue ''--name''),
      \<lparr>args =
        [\<lparr>short_name = Some ''-h'', long_name = Some ''--help'', type_fld = ARG_TYPE_FLAG,
           required = False, set_fld = True, value_fld = None,
           description = Some ''Show help''\<rparr>,
         \<lparr>short_name = Some ''-n'', long_name = Some ''--name'', type_fld = ARG_TYPE_VALUE,
           required = True, set_fld = True, value_fld = None,
           description = Some ''Your name''\<rparr>]\<rparr>)"
proof -
  let ?argv = "[''prog'', ''--help'', ''--name'']"
  let ?as = "(args example_parser)[0 := (args example_parser ! 0)\<lparr>set_fld := True\<rparr>]"
  have reach: "loop_state (Suc 0) (args example_parser) ?argv 1 = Some (?as, 2)"
    by (simp add: eval_simps)
  have last: "2 + 1 = length ?argv"
    by simp
  have fm: "first_match ?as (?argv ! 2) = Some 1"
    by (simp add: eval_simps)
  have ty: "type_fld (?as ! 1) = ARG_TYPE_VALUE" and req: "required (?as ! 1)"
    by (simp_all add: eval_simps)
  show ?thesis
    using parse_missing_value [OF reach last fm ty req] by (simp add: eval_simps)
qed

text \<open>
  C5. When the outer loop reaches the last token of \<^verbatim>\<open>argv\<close>, and the first entry that token
  equals is a value option that is not required, the token loop ends without failure: the
  entry's \<^verbatim>\<open>set\<close> field is true, its \<^verbatim>\<open>value\<close> field is what it was (absent if it was
  absent), and the result of \<^verbatim>\<open>arg_parser_parse\<close> is that of the check for required entries;
  it is success when every required entry is set.
\<close>

theorem parse_optional_value_last:
  assumes "loop_state n (args parser) argv 1 = Some (as, i)"
    and "i + 1 = length argv"
    and "first_match as (argv ! i) = Some j"
    and "type_fld (as ! j) = ARG_TYPE_VALUE"
    and "\<not> required (as ! j)"
  shows "parse_loop (args parser) argv 1 = (Inr (), as[j := (as ! j)\<lparr>set_fld := True\<rparr>]) \<and>
         arg_parser_parse parser argv =
           (check_required (as[j := (as ! j)\<lparr>set_fld := True\<rparr>]) 0,
            parser\<lparr>args := as[j := (as ! j)\<lparr>set_fld := True\<rparr>]\<rparr>) \<and>
         set_fld (as[j := (as ! j)\<lparr>set_fld := True\<rparr>] ! j) \<and>
         value_fld (as[j := (as ! j)\<lparr>set_fld := True\<rparr>] ! j) = value_fld (as ! j) \<and>
         ((\<forall>a\<in>set (as[j := (as ! j)\<lparr>set_fld := True\<rparr>]). required a \<longrightarrow> set_fld a) \<longrightarrow>
            arg_parser_parse parser argv =
              (Inr (), parser\<lparr>args := as[j := (as ! j)\<lparr>set_fld := True\<rparr>]\<rparr>))"
proof -
  let ?as' = "as[j := (as ! j)\<lparr>set_fld := True\<rparr>]"
  have lt: "i < length argv"
    using assms(2) by simp
  have j: "j < length as"
    using assms(3) by (simp add: first_match_Some_iff)
  have sc: "scan_args as argv i 0 = Break ?as' i"
    using scan_args_first_match [OF assms(3)] assms(2,4,5) by simp
  have "parse_loop (args parser) argv 1 = parse_loop as argv i"
    using assms(1) by (rule loop_state_parse_loop)
  also have "\<dots> = parse_loop ?as' argv (i + 1)"
    using lt sc by (rule parse_loop_Break)
  also have "\<dots> = (Inr (), ?as')"
    using assms(2) by (simp add: parse_loop_end)
  finally have loop: "parse_loop (args parser) argv 1 = (Inr (), ?as')" .
  then have res: "arg_parser_parse parser argv = (check_required ?as' 0, parser\<lparr>args := ?as'\<rparr>)"
    by (simp add: arg_parser_parse_def)
  have "(\<forall>a\<in>set ?as'. required a \<longrightarrow> set_fld a) \<longrightarrow>
      arg_parser_parse parser argv = (Inr (), parser\<lparr>args := ?as'\<rparr>)"
    using res by (simp add: check_required_all_set)
  with loop res j show ?thesis
    by simp
qed

theorem parse_optional_value_last_witness:
  "arg_parser_parse
     (arg_parser_add arg_parser_create
        (Some ''-o'') (Some ''--out'') ARG_TYPE_VALUE False (Some ''Output file''))
     [''prog'', ''-o''] =
     (Inr (),
      \<lparr>args =
        [\<lparr>short_name = Some ''-o'', long_name = Some ''--out'', type_fld = ARG_TYPE_VALUE,
           required = False, set_fld = True, value_fld = None,
           description = Some ''Output file''\<rparr>]\<rparr>)"
proof -
  let ?p = "arg_parser_add arg_parser_create
        (Some ''-o'') (Some ''--out'') ARG_TYPE_VALUE False (Some ''Output file'')"
  let ?argv = "[''prog'', ''-o'']"
  have reach: "loop_state 0 (args ?p) ?argv 1 = Some (args ?p, 1)"
    by simp
  have last: "1 + 1 = length ?argv"
    by simp
  have fm: "first_match (args ?p) (?argv ! 1) = Some 0"
    by (simp add: eval_simps)
  have ty: "type_fld (args ?p ! 0) = ARG_TYPE_VALUE" and req: "\<not> required (args ?p ! 0)"
    by (simp_all add: eval_simps)
  show ?thesis
    using parse_optional_value_last [OF reach last fm ty req]
    by (simp add: eval_simps check_required.simps)
qed

text \<open>
  C6. \<^verbatim>\<open>arg_parser_has\<close> is true exactly when some entry matches the name by short or long
  name and the first such entry, if a flag, has its \<^verbatim>\<open>set\<close> field true and, if a value
  option, has a \<^verbatim>\<open>value\<close> that is present. It is false otherwise, also when no entry matches.
\<close>

theorem has_iff:
  "arg_parser_has parser name \<longleftrightarrow>
     (\<exists>j<count parser.
        name_matches (args parser ! j) name \<and>
        (\<forall>k<j. \<not> name_matches (args parser ! k) name) \<and>
        (case type_fld (args parser ! j) of
           ARG_TYPE_FLAG \<Rightarrow> set_fld (args parser ! j)
         | ARG_TYPE_VALUE \<Rightarrow> value_fld (args parser ! j) \<noteq> None))"
proof (cases "first_match (args parser) name")
  case None
  then have "\<not> (\<exists>j<count parser. name_matches (args parser ! j) name)"
    by (auto simp: first_match_None_iff)
  with None show ?thesis
    by (auto simp: has_first_match)
next
  case (Some j)
  then have j: "j < count parser" "name_matches (args parser ! j) name"
    "\<forall>k<j. \<not> name_matches (args parser ! k) name"
    by (simp_all add: first_match_Some_iff)
  have uniq: "j' = j" if "j' < count parser" "name_matches (args parser ! j') name"
    "\<forall>k<j'. \<not> name_matches (args parser ! k) name" for j'
  proof -
    from that have "first_match (args parser) name = Some j'"
      by (simp add: first_match_Some_iff)
    with Some show ?thesis
      by simp
  qed
  have "arg_parser_has parser name =
      (case type_fld (args parser ! j) of
         ARG_TYPE_FLAG \<Rightarrow> set_fld (args parser ! j)
       | ARG_TYPE_VALUE \<Rightarrow> value_fld (args parser ! j) \<noteq> None)"
    using Some by (simp add: has_first_match)
  then show ?thesis
    using j uniq by blast
qed

theorem has_iff_witness:
  "arg_parser_has
     \<lparr>args =
        [\<lparr>short_name = Some ''-h'', long_name = Some ''--help'', type_fld = ARG_TYPE_FLAG,
           required = False, set_fld = True, value_fld = None,
           description = Some ''Show help''\<rparr>,
         \<lparr>short_name = Some ''-n'', long_name = Some ''--name'', type_fld = ARG_TYPE_VALUE,
           required = True, set_fld = True, value_fld = None,
           description = Some ''Your name''\<rparr>]\<rparr> ''--help'' \<and>
   \<not> arg_parser_has
     \<lparr>args =
        [\<lparr>short_name = Some ''-h'', long_name = Some ''--help'', type_fld = ARG_TYPE_FLAG,
           required = False, set_fld = True, value_fld = None,
           description = Some ''Show help''\<rparr>,
         \<lparr>short_name = Some ''-n'', long_name = Some ''--name'', type_fld = ARG_TYPE_VALUE,
           required = True, set_fld = True, value_fld = None,
           description = Some ''Your name''\<rparr>]\<rparr> ''-n''"
proof -
  let ?p = "\<lparr>args =
        [\<lparr>short_name = Some ''-h'', long_name = Some ''--help'', type_fld = ARG_TYPE_FLAG,
           required = False, set_fld = True, value_fld = None,
           description = Some ''Show help''\<rparr>,
         \<lparr>short_name = Some ''-n'', long_name = Some ''--name'', type_fld = ARG_TYPE_VALUE,
           required = True, set_fld = True, value_fld = None,
           description = Some ''Your name''\<rparr>]\<rparr>"
  have "arg_parser_has ?p ''--help''"
    by (rule has_iff [THEN iffD2], rule exI [of _ 0]) (simp add: name_matches_def)
  moreover have "\<not> arg_parser_has ?p ''-n''"
    by (subst has_iff) (simp add: name_matches_def Ex_less_Suc)
  ultimately show ?thesis
    by blast
qed

text \<open>
  C7. When \<open>j\<close> is the first entry that the name matches, \<^verbatim>\<open>arg_parser_get_value\<close>,
  \<^verbatim>\<open>arg_parser_is_flag_set\<close> and \<^verbatim>\<open>arg_parser_has\<close> answer from entry \<open>j\<close> alone. The entries
  registered after \<open>j\<close>, among them any that share the name, play no part: every parser with
  the same entries up to \<open>j\<close> gives the same three answers.
\<close>

theorem lookups_first_match:
  assumes "first_match (args parser) name = Some j"
  shows "arg_parser_get_value parser name = value_fld (args parser ! j) \<and>
         arg_parser_is_flag_set parser name = set_fld (args parser ! j) \<and>
         arg_parser_has parser name =
           (case type_fld (args parser ! j) of
              ARG_TYPE_FLAG \<Rightarrow> set_fld (args parser ! j)
            | ARG_TYPE_VALUE \<Rightarrow> value_fld (args parser ! j) \<noteq> None) \<and>
         (\<forall>parser'. take (Suc j) (args parser') = take (Suc j) (args parser) \<longrightarrow>
            arg_parser_get_value parser' name = arg_parser_get_value parser name \<and>
            arg_parser_is_flag_set parser' name = arg_parser_is_flag_set parser name \<and>
            arg_parser_has parser' name = arg_parser_has parser name)"
proof -
  have here: "arg_parser_get_value parser name = value_fld (args parser ! j) \<and>
      arg_parser_is_flag_set parser name = set_fld (args parser ! j) \<and>
      arg_parser_has parser name =
        (case type_fld (args parser ! j) of
           ARG_TYPE_FLAG \<Rightarrow> set_fld (args parser ! j)
         | ARG_TYPE_VALUE \<Rightarrow> value_fld (args parser ! j) \<noteq> None)"
    using assms by (simp add: get_value_first_match is_flag_set_first_match has_first_match)
  have "arg_parser_get_value parser' name = arg_parser_get_value parser name \<and>
      arg_parser_is_flag_set parser' name = arg_parser_is_flag_set parser name \<and>
      arg_parser_has parser' name = arg_parser_has parser name"
    if "take (Suc j) (args parser') = take (Suc j) (args parser)" for parser'
  proof -
    from first_match_take [OF assms that]
    have "first_match (args parser') name = Some j" and "args parser' ! j = args parser ! j"
      by simp_all
    with assms show ?thesis
      by (simp add: get_value_first_match is_flag_set_first_match has_first_match
          split: arg_type_t.splits)
  qed
  with here show ?thesis
    by blast
qed

theorem lookups_first_match_witness:
  "arg_parser_get_value
     \<lparr>args =
        [\<lparr>short_name = Some ''-m'', long_name = Some ''--mode'', type_fld = ARG_TYPE_VALUE,
           required = False, set_fld = True, value_fld = Some ''fast'',
           description = Some ''Mode''\<rparr>,
         \<lparr>short_name = Some ''-x'', long_name = Some ''--mode'', type_fld = ARG_TYPE_FLAG,
           required = False, set_fld = False, value_fld = None,
           description = Some ''Other mode''\<rparr>]\<rparr> ''--mode'' = Some ''fast'' \<and>
   arg_parser_is_flag_set
     \<lparr>args =
        [\<lparr>short_name = Some ''-m'', long_name = Some ''--mode'', type_fld = ARG_TYPE_VALUE,
           required = False, set_fld = True, value_fld = Some ''fast'',
           description = Some ''Mode''\<rparr>,
         \<lparr>short_name = Some ''-x'', long_name = Some ''--mode'', type_fld = ARG_TYPE_FLAG,
           required = False, set_fld = False, value_fld = None,
           description = Some ''Other mode''\<rparr>]\<rparr> ''--mode'' \<and>
   arg_parser_has
     \<lparr>args =
        [\<lparr>short_name = Some ''-m'', long_name = Some ''--mode'', type_fld = ARG_TYPE_VALUE,
           required = False, set_fld = True, value_fld = Some ''fast'',
           description = Some ''Mode''\<rparr>,
         \<lparr>short_name = Some ''-x'', long_name = Some ''--mode'', type_fld = ARG_TYPE_FLAG,
           required = False, set_fld = False, value_fld = None,
           description = Some ''Other mode''\<rparr>]\<rparr> ''--mode''"
proof -
  let ?p = "\<lparr>args =
        [\<lparr>short_name = Some ''-m'', long_name = Some ''--mode'', type_fld = ARG_TYPE_VALUE,
           required = False, set_fld = True, value_fld = Some ''fast'',
           description = Some ''Mode''\<rparr>,
         \<lparr>short_name = Some ''-x'', long_name = Some ''--mode'', type_fld = ARG_TYPE_FLAG,
           required = False, set_fld = False, value_fld = None,
           description = Some ''Other mode''\<rparr>]\<rparr>"
  have fm: "first_match (args ?p) ''--mode'' = Some 0"
    by (simp add: name_matches_def)
  show ?thesis
    using lookups_first_match [OF fm] by simp
qed

text \<open>
  C8. In every parser obtained from \<^verbatim>\<open>arg_parser_create\<close> by calls of \<^verbatim>\<open>arg_parser_add\<close> and
  \<^verbatim>\<open>arg_parser_parse\<close>, in any order and number, every entry whose \<^verbatim>\<open>value\<close> is present is a
  value option with its \<^verbatim>\<open>set\<close> field true. The property holds of a new parser, and both
  functions preserve it; parsing preserves it whether it returns 1 or 0.
\<close>

theorem value_inv_reachable:
  "value_inv arg_parser_create \<and>
   (value_inv parser \<longrightarrow> value_inv (arg_parser_add parser sn ln ty req descr)) \<and>
   (value_inv parser \<longrightarrow> value_inv (snd (arg_parser_parse parser argv))) \<and>
   value_inv (run_calls calls)"
  by (simp add: arg_parser_create_inv arg_parser_add_inv arg_parser_parse_inv
      foldl_apply_call_inv run_calls_def)

theorem value_inv_reachable_witness:
  "value_inv (snd (arg_parser_parse example_parser [''prog'', ''-n'', ''Alice''])) \<and>
   value_fld (args (snd (arg_parser_parse example_parser [''prog'', ''-n'', ''Alice''])) ! 1) =
     Some ''Alice''"
proof -
  let ?p1 = "arg_parser_add arg_parser_create
          (Some ''-h'') (Some ''--help'') ARG_TYPE_FLAG False (Some ''Show help'')"
  have "value_inv arg_parser_create"
    using value_inv_reachable by blast
  then have "value_inv ?p1"
    using value_inv_reachable [of arg_parser_create] by blast
  then have "value_inv example_parser"
    unfolding example_parser_def using value_inv_reachable [of ?p1] by blast
  then have "value_inv (snd (arg_parser_parse example_parser [''prog'', ''-n'', ''Alice'']))"
    using value_inv_reachable [of example_parser] by blast
  then show ?thesis
    by (simp add: parse_eval_simps)
qed

text \<open>
  C9. When \<^verbatim>\<open>arg_parser_parse\<close> returns 0 with a missing value reported for a token, that
  token is the last of \<^verbatim>\<open>argv\<close>, the first entry it equals is a required value option, and in
  the parser left behind that entry has its \<^verbatim>\<open>set\<close> field true and its \<^verbatim>\<open>value\<close> field as it
  was when the loop reached the token. So \<^verbatim>\<open>arg_parser_is_flag_set\<close> answers true for the
  token, and for every name that resolves to that entry, although the parse failed, while
  \<^verbatim>\<open>arg_parser_get_value\<close> and \<^verbatim>\<open>arg_parser_has\<close> answer from the unchanged value.
\<close>

theorem missing_value_leaves_set:
  assumes "arg_parser_parse parser argv = (Inl (MissingValue tok), parser')"
  shows "arg_parser_is_flag_set parser' tok \<and>
         (\<exists>n as i j. loop_state n (args parser) argv 1 = Some (as, i) \<and> i + 1 = length argv \<and>
            tok = argv ! i \<and> first_match as tok = Some j \<and>
            type_fld (as ! j) = ARG_TYPE_VALUE \<and> required (as ! j) \<and>
            args parser' = as[j := (as ! j)\<lparr>set_fld := True\<rparr>] \<and>
            first_match (args parser') tok = Some j \<and>
            set_fld (args parser' ! j) \<and>
            value_fld (args parser' ! j) = value_fld (as ! j) \<and>
            arg_parser_get_value parser' tok = value_fld (as ! j) \<and>
            arg_parser_has parser' tok = (value_fld (as ! j) \<noteq> None) \<and>
            (\<forall>name. first_match (args parser') name = Some j \<longrightarrow>
               arg_parser_is_flag_set parser' name))"
proof -
  obtain r as' where pl: "parse_loop (args parser) argv 1 = (r, as')"
    by (cases "parse_loop (args parser) argv 1")
  with assms have r: "r = Inl (MissingValue tok)" and p': "args parser' = as'"
    by (auto simp: arg_parser_parse_def check_required_not_MissingValue split: sum.splits)
  from pl r obtain n as i j where reach: "loop_state n (args parser) argv 1 = Some (as, i)"
    and last: "i + 1 = length argv" and tok: "tok = argv ! i"
    and fm: "first_match as tok = Some j"
    and ty: "type_fld (as ! j) = ARG_TYPE_VALUE" and req: "required (as ! j)"
    and upd: "as' = as[j := (as ! j)\<lparr>set_fld := True\<rparr>]"
    using parse_loop_MissingValue [of "args parser" argv 1 tok as'] by blast
  from fm have j: "j < length as"
    by (simp add: first_match_Some_iff)
  have fm': "first_match (args parser') tok = Some j"
    using fm by (simp add: p' upd first_match_update)
  have ent: "args parser' ! j = (as ! j)\<lparr>set_fld := True\<rparr>"
    using j by (simp add: p' upd)
  have flag: "arg_parser_is_flag_set parser' tok"
    using fm' ent by (simp add: is_flag_set_first_match)
  have gv: "arg_parser_get_value parser' tok = value_fld (as ! j)"
    using fm' ent by (simp add: get_value_first_match)
  have has: "arg_parser_has parser' tok = (value_fld (as ! j) \<noteq> None)"
    using fm' ent ty by (simp add: has_first_match)
  have "loop_state n (args parser) argv 1 = Some (as, i) \<and> i + 1 = length argv \<and>
      tok = argv ! i \<and> first_match as tok = Some j \<and>
      type_fld (as ! j) = ARG_TYPE_VALUE \<and> required (as ! j) \<and>
      args parser' = as[j := (as ! j)\<lparr>set_fld := True\<rparr>] \<and>
      first_match (args parser') tok = Some j \<and>
      set_fld (args parser' ! j) \<and>
      value_fld (args parser' ! j) = value_fld (as ! j) \<and>
      arg_parser_get_value parser' tok = value_fld (as ! j) \<and>
      arg_parser_has parser' tok = (value_fld (as ! j) \<noteq> None) \<and>
      (\<forall>name. first_match (args parser') name = Some j \<longrightarrow>
         arg_parser_is_flag_set parser' name)"
    using reach last tok fm ty req fm' gv has
    by (simp add: ent is_flag_set_first_match) (simp add: p' upd)
  with flag show ?thesis
    by blast
qed

theorem missing_value_leaves_set_witness:
  "fst (arg_parser_parse example_parser [''prog'', ''--name'']) = Inl (MissingValue ''--name'') \<and>
   arg_parser_is_flag_set (snd (arg_parser_parse example_parser [''prog'', ''--name''])) ''--name'' \<and>
   arg_parser_get_value (snd (arg_parser_parse example_parser [''prog'', ''--name''])) ''--name'' =
     None"
proof -
  let ?r = "arg_parser_parse example_parser [''prog'', ''--name'']"
  have f: "fst ?r = Inl (MissingValue ''--name'')"
    by (simp add: parse_eval_simps)
  then have "?r = (Inl (MissingValue ''--name''), snd ?r)"
    by (simp add: prod_eq_iff)
  from missing_value_leaves_set [OF this]
  have "arg_parser_is_flag_set (snd ?r) ''--name''"
    by blast
  moreover have "arg_parser_get_value (snd ?r) ''--name'' = None"
    by (simp add: parse_eval_simps arg_parser_get_value_def get_value_from.simps)
  ultimately show ?thesis
    using f by blast
qed

text \<open>
  C10. An entry whose short and long name are both absent matches no name. The three
  lookups answer as if the entry were not registered. \<^verbatim>\<open>arg_parser_parse\<close> leaves the entry as
  it is, and its token loop gives the same outcome whatever the other fields of such an
  entry hold; only the final check for required entries reads it: when the entry is
  required and not set, no parse succeeds.
\<close>

theorem nameless_entry_never_matched:
  assumes "short_name e = None" and "long_name e = None"
  shows "(\<forall>name. \<not> name_matches e name) \<and>
         (\<forall>xs ys name.
            arg_parser_get_value \<lparr>args = xs @ e # ys\<rparr> name =
              arg_parser_get_value \<lparr>args = xs @ ys\<rparr> name \<and>
            arg_parser_is_flag_set \<lparr>args = xs @ e # ys\<rparr> name =
              arg_parser_is_flag_set \<lparr>args = xs @ ys\<rparr> name \<and>
            arg_parser_has \<lparr>args = xs @ e # ys\<rparr> name =
              arg_parser_has \<lparr>args = xs @ ys\<rparr> name) \<and>
         (\<forall>parser argv k. k < count parser \<and> args parser ! k = e \<longrightarrow>
            count (snd (arg_parser_parse parser argv)) = count parser \<and>
            args (snd (arg_parser_parse parser argv)) ! k = e \<and>
            (required e \<and> \<not> set_fld e \<longrightarrow> fst (arg_parser_parse parser argv) \<noteq> Inr ())) \<and>
         (\<forall>parser argv k e'.
            k < count parser \<and> args parser ! k = e \<and>
            short_name e' = None \<and> long_name e' = None \<longrightarrow>
            parse_loop ((args parser)[k := e']) argv 1 =
              (fst (parse_loop (args parser) argv 1),
               (snd (parse_loop (args parser) argv 1))[k := e']))"
proof -
  have no: "\<not> name_matches e name" for name
    using assms by (rule nameless_no_match)
  have lookups: "arg_parser_get_value \<lparr>args = xs @ e # ys\<rparr> name =
        arg_parser_get_value \<lparr>args = xs @ ys\<rparr> name \<and>
      arg_parser_is_flag_set \<lparr>args = xs @ e # ys\<rparr> name =
        arg_parser_is_flag_set \<lparr>args = xs @ ys\<rparr> name \<and>
      arg_parser_has \<lparr>args = xs @ e # ys\<rparr> name =
        arg_parser_has \<lparr>args = xs @ ys\<rparr> name" for xs ys name
    using no [of name]
    by (simp add: arg_parser_get_value_def arg_parser_is_flag_set_def arg_parser_has_def
        get_value_from_find is_flag_set_from_find has_from_find find_skip)
  have upd: "parse_loop ((args parser)[k := e']) argv 1 =
      (fst (parse_loop (args parser) argv 1), (snd (parse_loop (args parser) argv 1))[k := e'])"
    if "k < count parser" "args parser ! k = e" "short_name e' = None" "long_name e' = None"
    for parser :: arg_parser_t and argv k e'
  proof (rule parse_loop_nameless_update)
    show "k < count parser"
      by (rule that(1))
    show "\<not> name_matches (args parser ! k) n" for n
      using no that(2) by simp
    show "\<not> name_matches e' n" for n
      using that(3,4) by (rule nameless_no_match)
  qed
  have frame: "count (snd (arg_parser_parse parser argv)) = count parser \<and>
      args (snd (arg_parser_parse parser argv)) ! k = e \<and>
      (required e \<and> \<not> set_fld e \<longrightarrow> fst (arg_parser_parse parser argv) \<noteq> Inr ())"
    if "k < count parser" "args parser ! k = e" for parser :: arg_parser_t and argv k
  proof -
    let ?as' = "snd (parse_loop (args parser) argv 1)"
    have a: "args (snd (arg_parser_parse parser argv)) = ?as'"
      by (simp add: arg_parser_parse_def split: prod.splits sum.splits)
    have len: "length ?as' = count parser"
      by (rule parse_loop_length)
    have "(args parser)[k := e] = args parser"
      using that by (simp add: list_update_same_conv)
    with upd [OF that assms, of argv] have "?as' = ?as'[k := e]"
      by (simp add: prod_eq_iff)
    then have "?as' ! k = ?as'[k := e] ! k"
      by simp
    also have "\<dots> = e"
      using that(1) len by simp
    finally have k: "?as' ! k = e" .
    have "fst (arg_parser_parse parser argv) \<noteq> Inr ()" if "required e" "\<not> set_fld e"
    proof (cases "fst (parse_loop (args parser) argv 1)")
      case (Inl err)
      then show ?thesis
        by (auto simp: arg_parser_parse_def split: prod.splits)
    next
      case (Inr u)
      have "e \<in> set ?as'"
        using k len \<open>k < count parser\<close> by (metis nth_mem)
      with that have "find (\<lambda>a. required a \<and> \<not> set_fld a) ?as' \<noteq> None"
        by (auto simp: find_None_iff)
      with Inr show ?thesis
        by (auto simp: arg_parser_parse_def check_required_find split: prod.splits option.splits)
    qed
    with a len k show ?thesis
      by simp
  qed
  from no lookups frame upd show ?thesis
    by blast
qed

theorem nameless_entry_never_matched_witness:
  "\<not> name_matches
       \<lparr>short_name = None, long_name = None, type_fld = ARG_TYPE_FLAG, required = False,
        set_fld = False, value_fld = None, description = Some ''No name''\<rparr> ''-h'' \<and>
   args (snd (arg_parser_parse
     \<lparr>args =
        [\<lparr>short_name = None, long_name = None, type_fld = ARG_TYPE_FLAG, required = False,
           set_fld = False, value_fld = None, description = Some ''No name''\<rparr>,
         \<lparr>short_name = Some ''-h'', long_name = Some ''--help'', type_fld = ARG_TYPE_FLAG,
           required = False, set_fld = False, value_fld = None,
           description = Some ''Show help''\<rparr>]\<rparr> [''prog'', ''-h''])) ! 0 =
     \<lparr>short_name = None, long_name = None, type_fld = ARG_TYPE_FLAG, required = False,
      set_fld = False, value_fld = None, description = Some ''No name''\<rparr>"
proof -
  let ?e = "\<lparr>short_name = None, long_name = None, type_fld = ARG_TYPE_FLAG, required = False,
        set_fld = False, value_fld = None, description = Some ''No name''\<rparr>"
  let ?p = "\<lparr>args = [?e,
         \<lparr>short_name = Some ''-h'', long_name = Some ''--help'', type_fld = ARG_TYPE_FLAG,
           required = False, set_fld = False, value_fld = None,
           description = Some ''Show help''\<rparr>]\<rparr>"
  have s: "short_name ?e = None" and l: "long_name ?e = None"
    by simp_all
  note inst = nameless_entry_never_matched [OF s l]
  have "\<not> name_matches ?e ''-h''"
    using inst by blast
  moreover have "0 < count ?p \<and> args ?p ! 0 = ?e"
    by simp
  then have "args (snd (arg_parser_parse ?p [''prog'', ''-h''])) ! 0 = ?e"
    using inst by blast
  ultimately show ?thesis
    by blast
qed

end
